theory Spec2Isabelle
  imports Main "HOL-Library.List_Lexorder" "HOL-Library.Char_ord" "HOL-Library.AList"
begin

section \<open>Data model (models.py)\<close>

text \<open>
  Usernames are Python strings compared by equality only. A \<open>datetime\<close> is modelled as
  the number of microseconds since the epoch (the resolution of Python's datetime), so
  that the difference of two datetimes is a timedelta in microseconds.
\<close>

type_synonym username = string
type_synonym datetime = int

definition us_per_second :: int where
  "us_per_second = 1000000"

definition us_per_day :: int where
  "us_per_day = 86400 * us_per_second"

text \<open>
  \<open>timedelta.days\<close>: a timedelta is normalised to days, seconds in \<open>[0, 86400)\<close> and
  microseconds in \<open>[0, 10^6)\<close>, so its \<open>days\<close> field is the floor of the quotient.
\<close>

definition timedelta_days :: "int \<Rightarrow> int" where
  "timedelta_days delta = delta div us_per_day"

record config =
  username :: username
  seeds_count :: int
  pages_per_seed :: int
  max_random_page :: int

record promoted_user =
  username :: username
  promotion_date :: datetime

text \<open>\<open>PromotedUser.is_expired\<close>; the clock read by \<open>datetime.now()\<close> is the argument \<open>now\<close>.\<close>

definition is_expired :: "promoted_user \<Rightarrow> datetime \<Rightarrow> int \<Rightarrow> bool" where
  "is_expired u now days = (let delta = now - promotion_date u in timedelta_days delta > days)"

record subscription_state =
  followers :: "username set"
  following :: "username set"
  ban_list_followers :: "username set"
  ban_list_following :: "username set"
  promoted_users :: "promoted_user list"

definition get_users_to_follow :: "subscription_state \<Rightarrow> username set" where
  "get_users_to_follow s = followers s - following s - ban_list_followers s"

definition get_users_to_unfollow :: "subscription_state \<Rightarrow> username set" where
  "get_users_to_unfollow s =
     (let active_promoted = username ` set (promoted_users s)
      in (following s - followers s - active_promoted) - ban_list_following s)"

record rate_limit_info =
  limit :: int
  remaining :: int
  reset_time :: datetime

definition is_exhausted :: "rate_limit_info \<Rightarrow> bool" where
  "is_exhausted r = (remaining r = 0)"

text \<open>
  \<open>timedelta.total_seconds()\<close> is the true division of the microseconds of the timedelta
  by \<open>10^6\<close>, a double: the quotient rounded to 53 significant bits, ties to even.
  \<open>round_half_even n d\<close> is the integer nearest to \<open>n / d\<close>, for \<open>d\<close> positive. For
  positive \<open>a\<close> and \<open>b\<close> (\<open>bit_length n\<close> is the number of binary digits of \<open>n\<close>),
  \<open>float_exponent a b\<close> is the exponent \<open>e\<close> that puts
  \<open>(a / b) / 2^e\<close> between \<open>2^52\<close> and \<open>2^53\<close>, the double nearest to \<open>a / b\<close> is the
  rounded mantissa times \<open>2^e\<close>, and \<open>int_of_true_divide a b\<close> is what \<open>int(a / b)\<close>
  makes of it, truncating. (The quotients of a timedelta are far inside the range of the
  doubles: there is neither overflow nor a subnormal.)
\<close>

definition round_half_even :: "int \<Rightarrow> int \<Rightarrow> int" where
  "round_half_even n d =
     (let q = n div d; r = n mod d
      in if 2 * r < d then q else if d < 2 * r then q + 1 else if even q then q else q + 1)"

function bit_length :: "int \<Rightarrow> nat" where
  "bit_length n = (if n \<le> 0 then 0 else Suc (bit_length (n div 2)))"
  by pat_completeness auto
termination
  by (relation "measure nat") auto

declare bit_length.simps [simp del]

definition float_exponent :: "int \<Rightarrow> int \<Rightarrow> int" where
  "float_exponent a b =
     (let d = int (bit_length a) - int (bit_length b);
          at_least = (if 0 \<le> d then b * 2 ^ nat d \<le> a else b \<le> a * 2 ^ nat (- d))
      in (if at_least then d else d - 1) - 52)"

definition int_of_true_divide :: "int \<Rightarrow> int \<Rightarrow> int" where
  "int_of_true_divide a b =
     (let e = float_exponent a b
      in if 0 \<le> e then round_half_even a (b * 2 ^ nat e) * 2 ^ nat e
         else round_half_even (a * 2 ^ nat (- e)) b div 2 ^ nat (- e))"

text \<open>\<open>int(delta.total_seconds())\<close>; rounding and truncation are symmetric about zero.\<close>

definition int_total_seconds :: "int \<Rightarrow> int" where
  "int_total_seconds delta =
     (if delta = 0 then 0
      else if 0 < delta then int_of_true_divide delta us_per_second
      else - int_of_true_divide (- delta) us_per_second)"

text \<open>\<open>RateLimitInfo.seconds_until_reset\<close>: \<open>max(0, int(delta.total_seconds()))\<close>.\<close>

definition seconds_until_reset :: "rate_limit_info \<Rightarrow> datetime \<Rightarrow> int" where
  "seconds_until_reset r now =
     (let delta = reset_time r - now in max 0 (int_total_seconds delta))"

text \<open>
  A datetime lies between the years 1 and 9999; \<open>min_timestamp\<close> and \<open>max_timestamp\<close>
  are the first and the last second of these years, counted from the epoch.
  \<open>datetime.fromtimestamp\<close> turns epoch seconds into the naive local datetime and raises
  when that falls outside these years; CPython also looks one day back, for a repeated
  hour, so that it refuses the first day of the year 1 as well.
\<close>

definition min_timestamp :: int where
  "min_timestamp = - 62135596800"

definition max_timestamp :: int where
  "max_timestamp = 253402300799"

definition valid_timestamp :: "int \<Rightarrow> bool" where
  "valid_timestamp t = (min_timestamp + 86400 \<le> t \<and> t \<le> max_timestamp)"


section \<open>Configuration provider (config.py)\<close>

record ban_lists =
  never_follow :: "username set"
  never_unfollow :: "username set"
  ignore_completely :: "username set"

record config_manager =
  ban_lists :: ban_lists

definition get_combined_ban_list_followers :: "config_manager \<Rightarrow> username set" where
  "get_combined_ban_list_followers cm =
     never_follow (ban_lists cm) \<union> ignore_completely (ban_lists cm)"

definition get_combined_ban_list_following :: "config_manager \<Rightarrow> username set" where
  "get_combined_ban_list_following cm = never_unfollow (ban_lists cm)"

section \<open>Errors\<close>

text \<open>
  The exceptions the modelled code raises or catches. \<open>ClientResponseError\<close> carries the
  HTTP status; \<open>ClientError\<close> stands for the other aiohttp client errors (connection
  failures); \<open>TypeError\<close> is raised by a call whose arguments do not fit the signature.
  \<open>TimestampError\<close> stands for what \<open>datetime.fromtimestamp\<close> raises for a timestamp
  outside the years 1 to 9999 (a \<open>ValueError\<close>, an \<open>OverflowError\<close> or an \<open>OSError\<close>,
  by the size of the timestamp): none of them is a \<open>ClientError\<close>.
\<close>

datatype error =
    ClientResponseError nat
  | ClientError
  | ValueError
  | TypeError
  | TimestampError

section \<open>Loading the ban lists (subscription_manager.py)\<close>

definition load_ban_lists ::
  "config_manager option \<Rightarrow> subscription_state \<Rightarrow> error + subscription_state" where
  "load_ban_lists config_manager state =
     (case config_manager of
        None \<Rightarrow> Inl ValueError
      | Some cm \<Rightarrow>
          Inr (state\<lparr>ban_list_followers := get_combined_ban_list_followers cm,
                     ban_list_following := get_combined_ban_list_following cm\<rparr>))"

section \<open>The API client (github_client.py)\<close>

subsection \<open>Requests, responses and the server\<close>

text \<open>
  A request is its HTTP method (\<open>method\<close> in the source), its endpoint and the pagination parameters
  \<open>(per_page, page)\<close> when it has them. A response carries what the client reads: the
  status, the three rate-limit headers (each may be absent; the reset header is in epoch
  seconds), whether the content type is \<open>application/json\<close>, and the logins of the
  objects of the JSON array in the body. The server is a function of the number of
  requests received so far and of the request; it answers with a response, or the
  connection fails.
\<close>

record request =
  http_method :: string
  endpoint :: string
  params :: "(nat \<times> nat) option"

record response =
  status :: nat
  x_ratelimit_limit :: "int option"
  x_ratelimit_remaining :: "int option"
  x_ratelimit_reset :: "int option"
  content_type_json :: bool
  body :: "username list"

datatype reply = ConnectionFailed | Response response

type_synonym server = "nat \<Rightarrow> request \<Rightarrow> reply"

text \<open>
  What \<open>_make_request\<close> hands back: the JSON array of the body (its logins) or the empty
  dict \<open>{}\<close>. A call of \<open>_make_request\<close> ends in \<open>Inl e\<close> (it raised \<open>e\<close>),
  \<open>Inr (Some j)\<close> (it returned \<open>j\<close>) or \<open>Inr None\<close> (it ran off the end of its body,
  which in Python returns \<open>None\<close>).
\<close>

datatype json = JList "username list" | JEmptyDict

text \<open>
  The client's state: the last rate-limit window seen, the clock (what \<open>datetime.now()\<close>
  returns, a naive local datetime; it is advanced by the sleeps of the client, a request
  itself takes no time in the model), the log of the HTTP requests sent through the
  session, oldest first, and the local time zone, as the offset from UTC in seconds at
  each timestamp.
\<close>

record client =
  rate_limit :: "rate_limit_info option"
  clock :: datetime
  sent :: "request list"
  utc_offset :: "int \<Rightarrow> int"

definition max_retries :: nat where
  "max_retries = 3"

definition sleep :: "int \<Rightarrow> client \<Rightarrow> client" where
  "sleep seconds c = c\<lparr>clock := clock c + seconds * us_per_second\<rparr>"

definition get_default :: "'a option \<Rightarrow> 'a \<Rightarrow> 'a" where
  "get_default v d = (case v of None \<Rightarrow> d | Some x \<Rightarrow> x)"

text \<open>
  \<open>datetime.fromtimestamp\<close> of epoch seconds, in the time zone of offsets \<open>off\<close>.
\<close>

definition fromtimestamp :: "(int \<Rightarrow> int) \<Rightarrow> int \<Rightarrow> error + datetime" where
  "fromtimestamp off t =
     (if valid_timestamp (t + off t) then Inr ((t + off t) * us_per_second)
      else Inl TimestampError)"

text \<open>
  The update of \<open>self.rate_limit\<close> from the headers of a response. The exception of
  \<open>fromtimestamp\<close> leaves \<open>_make_request\<close>: its handlers catch \<open>ClientError\<close> only.
\<close>

definition update_rate_limit :: "response \<Rightarrow> client \<Rightarrow> error + client" where
  "update_rate_limit r c =
     (if x_ratelimit_limit r \<noteq> None
      then (case fromtimestamp (utc_offset c) (get_default (x_ratelimit_reset r) 0) of
              Inl e \<Rightarrow> Inl e
            | Inr reset \<Rightarrow>
                Inr (c\<lparr>rate_limit := Some
                         \<lparr>limit = get_default (x_ratelimit_limit r) 0,
                          remaining = get_default (x_ratelimit_remaining r) 0,
                          reset_time = reset\<rparr>\<rparr>))
      else Inr c)"

text \<open>The reset header of a response is one the update accepts, or is not read at all.\<close>

definition reset_accepted :: "(int \<Rightarrow> int) \<Rightarrow> response \<Rightarrow> bool" where
  "reset_accepted off r =
     (x_ratelimit_limit r = None
      \<or> valid_timestamp (get_default (x_ratelimit_reset r) 0
                           + off (get_default (x_ratelimit_reset r) 0)))"

definition session_request :: "server \<Rightarrow> request \<Rightarrow> client \<Rightarrow> reply \<times> client" where
  "session_request srv req c = (srv (length (sent c)) req, c\<lparr>sent := sent c @ [req]\<rparr>)"

subsection \<open>\<open>_make_request\<close>\<close>

text \<open>
  The body of \<open>for attempt in range(max_retries)\<close>, from the attempt \<open>attempt\<close> on.
  \<open>raise_for_status\<close> raises \<open>ClientResponseError\<close> for a status of 400 or more. The
  \<open>continue\<close> of the 429 branch, like the two of the handlers, goes on with the next
  value of \<open>attempt\<close>; when the range is exhausted the function ends without a
  \<open>return\<close>.
\<close>

function make_request_loop ::
  "server \<Rightarrow> request \<Rightarrow> nat \<Rightarrow> int \<Rightarrow> client \<Rightarrow> (error + json option) \<times> client" where
  "make_request_loop srv req attempt retry_delay c =
     (if attempt < max_retries then
        (case session_request srv req c of
           (ConnectionFailed, c1) \<Rightarrow>
             if attempt < max_retries - 1
             then make_request_loop srv req (attempt + 1) retry_delay (sleep retry_delay c1)
             else (Inl ClientError, c1)
         | (Response r, c1) \<Rightarrow>
             (case update_rate_limit r c1 of
                Inl e \<Rightarrow> (Inl e, c1)
              | Inr c2 \<Rightarrow>
                  if status r = 429 \<and> rate_limit c2 \<noteq> None then
                    (let wait_time = seconds_until_reset (the (rate_limit c2)) (clock c2) + 1
                     in make_request_loop srv req (attempt + 1) retry_delay
                          (sleep wait_time c2))
                  else if 400 \<le> status r then
                    (if status r \<in> {502, 503, 504} \<and> attempt < max_retries - 1
                     then make_request_loop srv req (attempt + 1) (retry_delay * 2)
                            (sleep retry_delay c2)
                     else (Inl (ClientResponseError (status r)), c2))
                  else if content_type_json r then (Inr (Some (JList (body r))), c2)
                  else (Inr (Some JEmptyDict), c2)))
      else (Inr None, c))"
  by pat_completeness auto
termination
  by (relation "measure (\<lambda>(srv, req, attempt, retry_delay, c). max_retries - attempt)") auto

declare make_request_loop.simps [simp del]

definition make_request :: "server \<Rightarrow> request \<Rightarrow> client \<Rightarrow> (error + json option) \<times> client" where
  "make_request srv req c = make_request_loop srv req 0 1 c"

subsection \<open>Paginated fetch\<close>

text \<open>
  The operations above \<open>_make_request\<close> are written over the request primitive they
  call, \<open>mk\<close>, and thread its state: \<open>make_request srv\<close> on a \<open>client\<close> is the real one,
  a recording stub (below) is another.
\<close>

type_synonym 's requester = "request \<Rightarrow> 's \<Rightarrow> (error + json option) \<times> 's"

definition PER_PAGE :: nat where
  "PER_PAGE = 100"

definition followers_request :: "username \<Rightarrow> nat \<Rightarrow> request" where
  "followers_request user page =
     \<lparr>http_method = ''GET'', endpoint = ''/users/'' @ user @ ''/followers'',
      params = Some (PER_PAGE, page)\<rparr>"

text \<open>
  The items of the data returned: \<open>None\<close> and \<open>{}\<close> have none, and \<open>not data\<close> holds
  exactly when there are none.
\<close>

fun items :: "json option \<Rightarrow> username list" where
  "items None = []"
| "items (Some JEmptyDict) = []"
| "items (Some (JList users)) = users"

text \<open>\<open>max_pages and page > max_pages\<close>: \<open>None\<close> and \<open>0\<close> are both falsy.\<close>

definition page_limit_reached :: "int option \<Rightarrow> nat \<Rightarrow> bool" where
  "page_limit_reached max_pages page =
     (case max_pages of None \<Rightarrow> False | Some m \<Rightarrow> m \<noteq> 0 \<and> int page > m)"

text \<open>
  The \<open>while True\<close> loop of \<open>get_followers\<close> from the page \<open>page\<close> on, with the
  followers collected so far. The loop need not end (a server may return full pages
  for ever), so the result is optional: \<open>None\<close> is a loop that never returns.
\<close>

partial_function (option) get_followers_loop ::
  "'s requester \<Rightarrow> username \<Rightarrow> int option \<Rightarrow> nat \<Rightarrow> username list \<Rightarrow> 's
     \<Rightarrow> ((error + username list) \<times> 's) option" where
  "get_followers_loop mk user max_pages page collected s =
     (if page_limit_reached max_pages page then Some (Inr collected, s)
      else
        (case mk (followers_request user page) s of
           (Inl e, s1) \<Rightarrow> Some (Inl e, s1)
         | (Inr data, s1) \<Rightarrow>
             if items data = [] then Some (Inr collected, s1)
             else if length (items data) < PER_PAGE
               then Some (Inr (collected @ items data), s1)
               else get_followers_loop mk user max_pages (page + 1)
                      (collected @ items data) s1))"

declare get_followers_loop.simps [code]

text \<open>\<open>username or self.username\<close> (the parameter is \<open>user\<close> here): \<open>None\<close> and the empty string are both falsy.\<close>

definition get_followers ::
  "'s requester \<Rightarrow> username \<Rightarrow> username option \<Rightarrow> int option \<Rightarrow> 's
     \<Rightarrow> ((error + username list) \<times> 's) option" where
  "get_followers mk self_username user max_pages s =
     (let user = (case user of None \<Rightarrow> self_username
                      | Some u \<Rightarrow> if u = [] then self_username else u)
      in get_followers_loop mk user max_pages 1 [] s)"

text \<open>
  \<open>get_following\<close>: the same loop on the endpoint of the accounts the user follows.
\<close>

definition following_request :: "username \<Rightarrow> nat \<Rightarrow> request" where
  "following_request user page =
     \<lparr>http_method = ''GET'', endpoint = ''/users/'' @ user @ ''/following'',
      params = Some (PER_PAGE, page)\<rparr>"

partial_function (option) get_following_loop ::
  "'s requester \<Rightarrow> username \<Rightarrow> int option \<Rightarrow> nat \<Rightarrow> username list \<Rightarrow> 's
     \<Rightarrow> ((error + username list) \<times> 's) option" where
  "get_following_loop mk user max_pages page collected s =
     (if page_limit_reached max_pages page then Some (Inr collected, s)
      else
        (case mk (following_request user page) s of
           (Inl e, s1) \<Rightarrow> Some (Inl e, s1)
         | (Inr data, s1) \<Rightarrow>
             if items data = [] then Some (Inr collected, s1)
             else if length (items data) < PER_PAGE
               then Some (Inr (collected @ items data), s1)
               else get_following_loop mk user max_pages (page + 1)
                      (collected @ items data) s1))"

declare get_following_loop.simps [code]

definition get_following ::
  "'s requester \<Rightarrow> username \<Rightarrow> username option \<Rightarrow> int option \<Rightarrow> 's
     \<Rightarrow> ((error + username list) \<times> 's) option" where
  "get_following mk self_username user max_pages s =
     (let user = (case user of None \<Rightarrow> self_username
                      | Some u \<Rightarrow> if u = [] then self_username else u)
      in get_following_loop mk user max_pages 1 [] s)"

subsection \<open>Single and batched mutations\<close>

definition follow_request :: "username \<Rightarrow> request" where
  "follow_request user =
     \<lparr>http_method = ''PUT'', endpoint = ''/user/following/'' @ user, params = None\<rparr>"

definition unfollow_request :: "username \<Rightarrow> request" where
  "unfollow_request user =
     \<lparr>http_method = ''DELETE'', endpoint = ''/user/following/'' @ user, params = None\<rparr>"

definition follow_user :: "'s requester \<Rightarrow> username \<Rightarrow> 's \<Rightarrow> bool \<times> 's" where
  "follow_user mk user s =
     (case mk (follow_request user) s of
        (Inr data, s1) \<Rightarrow> (True, s1)
      | (Inl e, s1) \<Rightarrow> (False, s1))"

definition unfollow_user :: "'s requester \<Rightarrow> username \<Rightarrow> 's \<Rightarrow> bool \<times> 's" where
  "unfollow_user mk user s =
     (case mk (unfollow_request user) s of
        (Inr data, s1) \<Rightarrow> (True, s1)
      | (Inl e, s1) \<Rightarrow> (False, s1))"

text \<open>
  \<open>asyncio.gather(*tasks, return_exceptions=True)\<close>: one response per task, in the
  order of the tasks, an exception raised by a task being its response. The tasks are
  cooperative; the model runs them one after the other in the order they are launched.
  The staggering sleeps of the batch operations are not part of the model.
\<close>

fun gather :: "('s \<Rightarrow> (error + 'a) \<times> 's) list \<Rightarrow> 's \<Rightarrow> (error + 'a) list \<times> 's" where
  "gather [] s = ([], s)"
| "gather (task # tasks) s =
     (case task s of (response, s1) \<Rightarrow>
        (case gather tasks s1 of (responses, s2) \<Rightarrow> (response # responses, s2)))"

text \<open>The loop \<open>for user, response in zip(usernames, responses)\<close> of the two batch operations.\<close>

definition collect_results ::
  "username list \<Rightarrow> (error + bool) list \<Rightarrow> (username \<rightharpoonup> bool)" where
  "collect_results usernames responses =
     fold (\<lambda>(user, response) results.
             case response of
               Inl e \<Rightarrow> results(user \<mapsto> False)
             | Inr r \<Rightarrow> results(user \<mapsto> r))
          (zip usernames responses) Map.empty"

definition batch_follow ::
  "'s requester \<Rightarrow> username list \<Rightarrow> 's \<Rightarrow> (username \<rightharpoonup> bool) \<times> 's" where
  "batch_follow mk usernames s =
     (let tasks = map (\<lambda>user s. case follow_user mk user s of (r, s1) \<Rightarrow> (Inr r, s1))
                    usernames
      in case gather tasks s of (responses, s1) \<Rightarrow> (collect_results usernames responses, s1))"

definition batch_unfollow ::
  "'s requester \<Rightarrow> username list \<Rightarrow> 's \<Rightarrow> (username \<rightharpoonup> bool) \<times> 's" where
  "batch_unfollow mk usernames s =
     (let tasks = map (\<lambda>user s. case unfollow_user mk user s of (r, s1) \<Rightarrow> (Inr r, s1))
                    usernames
      in case gather tasks s of (responses, s1) \<Rightarrow> (collect_results usernames responses, s1))"

subsection \<open>Batched follower fetch\<close>

text \<open>
  The gather of the \<open>get_followers\<close> tasks; a task that never returns makes the gather
  never return. The resulting dict is an association list in insertion order, a key
  assigned again keeping its place.
\<close>

fun gather_followers ::
  "'s requester \<Rightarrow> username \<Rightarrow> username list \<Rightarrow> int option \<Rightarrow> 's
     \<Rightarrow> ((error + username list) list \<times> 's) option" where
  "gather_followers mk self_username [] max_pages s = Some ([], s)"
| "gather_followers mk self_username (user # usernames) max_pages s =
     (case get_followers mk self_username (Some user) max_pages s of
        None \<Rightarrow> None
      | Some (result, s1) \<Rightarrow>
          (case gather_followers mk self_username usernames max_pages s1 of
             None \<Rightarrow> None
           | Some (results, s2) \<Rightarrow> Some (result # results, s2)))"

definition get_followers_batch ::
  "'s requester \<Rightarrow> username \<Rightarrow> username list \<Rightarrow> int \<Rightarrow> 's
     \<Rightarrow> ((username \<times> username list) list \<times> 's) option" where
  "get_followers_batch mk self_username usernames max_pages s =
     (case gather_followers mk self_username usernames (Some max_pages) s of
        None \<Rightarrow> None
      | Some (results, s1) \<Rightarrow>
          Some (fold (\<lambda>(user, result) followers_dict.
                        case result of
                          Inl e \<Rightarrow> AList.update user [] followers_dict
                        | Inr r \<Rightarrow> AList.update user r followers_dict)
                     (zip usernames results) [],
                s1))"

subsection \<open>Calling \<open>get_followers_batch\<close>\<close>

text \<open>
  Python binds the arguments of a call to the parameters of the signature before the
  body runs, and raises \<open>TypeError\<close> when there are too many positional arguments, when
  a keyword names no parameter, or when a parameter gets two values. The signature of
  \<open>get_followers_batch\<close> is \<open>(self, usernames, max_pages=1)\<close>.
\<close>

datatype pyarg =
    ArgUsernames "username list"
  | ArgInt int
  | ArgPagesMap "(username \<times> nat list) list"

definition bind_arguments ::
  "string list \<Rightarrow> pyarg list \<Rightarrow> (string \<times> pyarg) list \<Rightarrow> error + (string \<rightharpoonup> pyarg)" where
  "bind_arguments names args kwargs =
     (if length names < length args then Inl TypeError
      else if list_ex (\<lambda>k. k \<notin> set names) (map fst kwargs) then Inl TypeError
      else if list_ex (\<lambda>k. k \<in> set (take (length args) names)) (map fst kwargs)
        then Inl TypeError
      else Inr (map_of (zip names args @ kwargs)))"

definition get_followers_batch_params :: "string list" where
  "get_followers_batch_params = [''usernames'', ''max_pages'']"

definition call_get_followers_batch ::
  "'s requester \<Rightarrow> username \<Rightarrow> pyarg list \<Rightarrow> (string \<times> pyarg) list \<Rightarrow> 's
     \<Rightarrow> ((error + (username \<times> username list) list) \<times> 's) option" where
  "call_get_followers_batch mk self_username args kwargs s =
     (case bind_arguments get_followers_batch_params args kwargs of
        Inl e \<Rightarrow> Some (Inl e, s)
      | Inr bound \<Rightarrow>
          (case (bound ''usernames'', bound ''max_pages'') of
             (Some (ArgUsernames usernames), None) \<Rightarrow>
               map_option (\<lambda>(d, s1). (Inr d, s1))
                 (get_followers_batch mk self_username usernames 1 s)
           | (Some (ArgUsernames usernames), Some (ArgInt max_pages)) \<Rightarrow>
               map_option (\<lambda>(d, s1). (Inr d, s1))
                 (get_followers_batch mk self_username usernames max_pages s)
           | _ \<Rightarrow> Some (Inl TypeError, s)))"

section \<open>Discovery (promotion.py)\<close>

text \<open>
  \<open>random.shuffle\<close> and \<open>random.sample\<close> are taken from an injected random source.
  The sample drawn for a seed is indexed by the seed, which the visited set lets through
  at most once per search. \<open>current_followers\<close> is given as the list that
  \<open>list(current_followers)\<close> makes of the set.
\<close>

record random_source =
  shuffle :: "username list \<Rightarrow> username list"
  sample :: "username \<Rightarrow> nat list \<Rightarrow> nat \<Rightarrow> nat list"

text \<open>The slice \<open>xs[:n]\<close>; a negative \<open>n\<close> counts from the end.\<close>

definition py_take :: "int \<Rightarrow> 'a list \<Rightarrow> 'a list" where
  "py_take n xs = (if 0 \<le> n then take (nat n) xs else take (length xs - nat (- n)) xs)"

definition sample_pages ::
  "random_source \<Rightarrow> config \<Rightarrow> username list \<Rightarrow> (username \<times> nat list) list" where
  "sample_pages rnd cfg batch =
     (let max_page = max 1 (max_random_page cfg);
          per_seed = max 1 (pages_per_seed cfg)
      in fold (\<lambda>u pages_map.
                 AList.update u
                   (sort (remdups (sample rnd u [1..<nat max_page + 1]
                                     (nat (min per_seed max_page)))))
                   pages_map)
              batch [])"

text \<open>
  The loop \<open>for follower in followers\<close>, on the pair of \<open>promoted\<close> and \<open>next_level\<close>;
  \<open>deeper\<close> is \<open>current_depth + 1 < max_depth\<close>. The \<open>break\<close> leaves the follower that
  completed the count out of the next level.
\<close>

fun collect_followers ::
  "username set \<Rightarrow> int \<Rightarrow> bool \<Rightarrow> username list \<Rightarrow> username list \<times> username list
     \<Rightarrow> username list \<times> username list" where
  "collect_followers excluded count deeper [] (promoted, next_level) = (promoted, next_level)"
| "collect_followers excluded count deeper (follower # rest) (promoted, next_level) =
     (if follower \<notin> excluded \<and> follower \<notin> set promoted then
        (if count \<le> int (length (promoted @ [follower])) then (promoted @ [follower], next_level)
         else collect_followers excluded count deeper rest
                (promoted @ [follower], if deeper then next_level @ [follower] else next_level))
      else collect_followers excluded count deeper rest
             (promoted, if deeper then next_level @ [follower] else next_level))"

text \<open>The loop \<open>for username, followers in followers_dict.items()\<close>.\<close>

fun collect_dict ::
  "username set \<Rightarrow> int \<Rightarrow> bool \<Rightarrow> (username \<times> username list) list
     \<Rightarrow> username list \<times> username list \<Rightarrow> username list \<times> username list" where
  "collect_dict excluded count deeper [] st = st"
| "collect_dict excluded count deeper ((user, fs) # rest) st =
     (case collect_followers excluded count deeper fs st of
        (promoted, next_level) \<Rightarrow>
          if count \<le> int (length promoted) then (promoted, next_level)
          else collect_dict excluded count deeper rest (promoted, next_level))"

text \<open>
  The \<open>try\<close> block of one sub-batch: the page numbers are drawn, the client is called
  with the keyword \<open>pages_map\<close>, and the followers returned are collected. An exception
  is caught by \<open>except Exception\<close> and logged; what was collected before it stays.
\<close>

definition fetch_batch ::
  "'s requester \<Rightarrow> config \<Rightarrow> random_source \<Rightarrow> username set \<Rightarrow> int \<Rightarrow> bool \<Rightarrow> username list
     \<Rightarrow> username list \<times> username list \<Rightarrow> 's
     \<Rightarrow> ((username list \<times> username list) \<times> 's) option" where
  "fetch_batch mk cfg rnd excluded count deeper batch st s =
     (let pages_map = sample_pages rnd cfg batch
      in case call_get_followers_batch mk (config.username cfg)
                [ArgUsernames batch] [(''pages_map'', ArgPagesMap pages_map)] s of
           None \<Rightarrow> None
         | Some (Inl e, s1) \<Rightarrow> Some (st, s1)
         | Some (Inr followers_dict, s1) \<Rightarrow>
             Some (collect_dict excluded count deeper followers_dict st, s1))"

definition batch_size :: nat where
  "batch_size = 3"

text \<open>
  The loop \<open>for i in range(0, len(queue), batch_size)\<close> from the index \<open>i\<close> on. The
  one-second sleep between sub-batches is not part of the model.
\<close>

function process_batches ::
  "'s requester \<Rightarrow> config \<Rightarrow> random_source \<Rightarrow> username set \<Rightarrow> int \<Rightarrow> bool \<Rightarrow> username list
     \<Rightarrow> nat \<Rightarrow> username list \<Rightarrow> username set \<Rightarrow> username list \<Rightarrow> 's
     \<Rightarrow> ((username list \<times> username set \<times> username list) \<times> 's) option" where
  "process_batches mk cfg rnd excluded count deeper queue i promoted visited next_level s =
     (if i < length queue then
        (let batch = filter (\<lambda>u. u \<notin> visited) (take batch_size (drop i queue))
         in if batch = []
            then process_batches mk cfg rnd excluded count deeper queue (i + batch_size)
                   promoted visited next_level s
            else
              (case fetch_batch mk cfg rnd excluded count deeper batch (promoted, next_level) s of
                 None \<Rightarrow> None
               | Some ((promoted1, next_level1), s1) \<Rightarrow>
                   if count \<le> int (length promoted1)
                   then Some ((promoted1, visited \<union> set batch, next_level1), s1)
                   else process_batches mk cfg rnd excluded count deeper queue (i + batch_size)
                          promoted1 (visited \<union> set batch) next_level1 s1))
      else Some ((promoted, visited, next_level), s))"
  by pat_completeness auto
termination
  by (relation "measure (\<lambda>(mk, cfg, rnd, excluded, count, deeper, queue, i, rest).
                   length queue - i)")
     (auto simp add: batch_size_def)

declare process_batches.simps [simp del]

text \<open>The \<open>while\<close> loop over the depth levels.\<close>

function promote_levels ::
  "'s requester \<Rightarrow> config \<Rightarrow> random_source \<Rightarrow> username set \<Rightarrow> int \<Rightarrow> int \<Rightarrow> username list
     \<Rightarrow> username list \<Rightarrow> username set \<Rightarrow> int \<Rightarrow> 's \<Rightarrow> (username list \<times> 's) option" where
  "promote_levels mk cfg rnd excluded count max_depth queue promoted visited current_depth s =
     (if queue \<noteq> [] \<and> int (length promoted) < count \<and> current_depth < max_depth then
        (case process_batches mk cfg rnd excluded count (current_depth + 1 < max_depth)
                queue 0 promoted visited [] s of
           None \<Rightarrow> None
         | Some ((promoted1, visited1, next_level), s1) \<Rightarrow>
             promote_levels mk cfg rnd excluded count max_depth (take 50 next_level)
               promoted1 visited1 (current_depth + 1) s1)
      else Some (promoted, s))"
  by pat_completeness auto
termination
  by (relation "measure (\<lambda>(mk, cfg, rnd, excluded, count, max_depth, queue, promoted, visited,
                   current_depth, s). nat (max_depth - current_depth))")
     auto

declare promote_levels.simps [simp del]

definition find_users_to_promote ::
  "'s requester \<Rightarrow> config \<Rightarrow> random_source \<Rightarrow> username list \<Rightarrow> username set \<Rightarrow> int \<Rightarrow> int \<Rightarrow> 's
     \<Rightarrow> (username list \<times> 's) option" where
  "find_users_to_promote mk cfg rnd current_followers ban_list count max_depth s =
     (let excluded = ban_list \<union> set current_followers \<union> {config.username cfg};
          followers_list = current_followers
      in if followers_list = [] then Some ([], s)
         else
           (let seeds = min (seeds_count cfg) (int (length followers_list));
                queue = py_take seeds (shuffle rnd followers_list)
            in case promote_levels mk cfg rnd excluded count max_depth queue [] {} 0 s of
                 None \<Rightarrow> None
               | Some (promoted, s1) \<Rightarrow> Some (py_take count promoted, s1)))"

section \<open>Applying the mutations (subscription_manager.py)\<close>

definition mutation_batch_size :: nat where
  "mutation_batch_size = 5"

text \<open>
  The loop \<open>for i in range(0, len(users), batch_size)\<close> of \<open>_process_follows\<close>, from
  the index \<open>i\<close> on; \<open>results.update\<close> is the right-biased union of the maps.
\<close>

function process_follows_loop ::
  "'s requester \<Rightarrow> username list \<Rightarrow> nat \<Rightarrow> (username \<rightharpoonup> bool) \<Rightarrow> 's
     \<Rightarrow> (username \<rightharpoonup> bool) \<times> 's" where
  "process_follows_loop mk users i results s =
     (if i < length users then
        (let batch = take mutation_batch_size (drop i users)
         in case batch_follow mk batch s of
              (batch_results, s1) \<Rightarrow>
                process_follows_loop mk users (i + mutation_batch_size)
                  (results ++ batch_results) s1)
      else (results, s))"
  by pat_completeness auto
termination
  by (relation "measure (\<lambda>(mk, users, i, results, s). length users - i)")
     (auto simp add: mutation_batch_size_def)

declare process_follows_loop.simps [simp del]

definition process_follows ::
  "'s requester \<Rightarrow> username list \<Rightarrow> 's \<Rightarrow> (username \<rightharpoonup> bool) \<times> 's" where
  "process_follows mk users s =
     (if users = [] then (Map.empty, s)
      else process_follows_loop mk (sort users) 0 Map.empty s)"

function process_unfollows_loop ::
  "'s requester \<Rightarrow> username list \<Rightarrow> nat \<Rightarrow> (username \<rightharpoonup> bool) \<Rightarrow> 's
     \<Rightarrow> (username \<rightharpoonup> bool) \<times> 's" where
  "process_unfollows_loop mk users i results s =
     (if i < length users then
        (let batch = take mutation_batch_size (drop i users)
         in case batch_unfollow mk batch s of
              (batch_results, s1) \<Rightarrow>
                process_unfollows_loop mk users (i + mutation_batch_size)
                  (results ++ batch_results) s1)
      else (results, s))"
  by pat_completeness auto
termination
  by (relation "measure (\<lambda>(mk, users, i, results, s). length users - i)")
     (auto simp add: mutation_batch_size_def)

declare process_unfollows_loop.simps [simp del]

definition process_unfollows ::
  "'s requester \<Rightarrow> username list \<Rightarrow> 's \<Rightarrow> (username \<rightharpoonup> bool) \<times> 's" where
  "process_unfollows mk users s =
     (if users = [] then (Map.empty, s)
      else process_unfollows_loop mk (sort users) 0 Map.empty s)"

section \<open>Stub servers and stub clients\<close>

text \<open>
  A scripted server answers the n-th request with the n-th reply of the script, and
  stops answering when the script is over. A page server answers every request with a
  JSON page, chosen by the page number asked for. A recording requester stands for
  \<open>_make_request\<close> in a test: it gives each request the outcome assigned to it and logs
  the requests in the order made.
\<close>

definition script :: "reply list \<Rightarrow> server" where
  "script rs n req = (if n < length rs then rs ! n else ConnectionFailed)"

definition plain :: "nat \<Rightarrow> reply" where
  "plain st =
     Response \<lparr>status = st, x_ratelimit_limit = None, x_ratelimit_remaining = None,
       x_ratelimit_reset = None, content_type_json = False, body = []\<rparr>"

definition json_page :: "username list \<Rightarrow> reply" where
  "json_page users =
     Response \<lparr>status = 200, x_ratelimit_limit = None, x_ratelimit_remaining = None,
       x_ratelimit_reset = None, content_type_json = True, body = users\<rparr>"

definition limited :: "int \<Rightarrow> response" where
  "limited reset =
     \<lparr>status = 429, x_ratelimit_limit = Some 60, x_ratelimit_remaining = Some 0,
      x_ratelimit_reset = Some reset, content_type_json = False, body = []\<rparr>"

definition page_server :: "(nat \<Rightarrow> username list) \<Rightarrow> server" where
  "page_server pages n req =
     json_page (case params req of None \<Rightarrow> [] | Some (per_page, page) \<Rightarrow> pages page)"

definition client0 :: client where
  "client0 = \<lparr>rate_limit = None, clock = 0, sent = [], utc_offset = (\<lambda>t. 0)\<rparr>"

definition recording ::
  "(request \<Rightarrow> error + json option) \<Rightarrow> request list requester" where
  "recording outcome req log = (outcome req, log @ [req])"

text \<open>
  A batch of five subjects, and an assignment of outcomes in which the request for the
  third one fails with a 404 and every other request returns.
\<close>

definition five_subjects :: "username list" where
  "five_subjects = [''a'', ''b'', ''c'', ''d'', ''e'']"

definition third_fails :: "request \<Rightarrow> error + json option" where
  "third_fails req =
     (if endpoint req = ''/user/following/c'' then Inl (ClientResponseError 404)
      else Inr (Some JEmptyDict))"

text \<open>
  A random source that shuffles nothing and samples the first page numbers, and a
  configuration with the default discovery tuning.
\<close>

text \<open>
  A server that answers every request about the third subject with a 429 carrying the
  rate-limit headers, and every other request with 204. A server of three pages of
  followers: two full ones and a short one.
\<close>

definition third_rate_limited :: server where
  "third_rate_limited n req =
     (if endpoint req = ''/user/following/c'' then Response (limited 5) else plain 204)"

definition three_pages :: "nat \<Rightarrow> username list" where
  "three_pages p = (if p < 3 then replicate 100 ''u'' else [''v''])"


definition window5 :: rate_limit_info where
  "window5 = \<lparr>limit = 60, remaining = 0, reset_time = 5 * us_per_second\<rparr>"

definition after_limited :: client where
  "after_limited = client0\<lparr>sent := [follow_request ''bob''], rate_limit := Some window5\<rparr>"

text \<open>
  A server whose first reply is a full page carrying the rate-limit headers and whose
  next three replies are 429 without any header.
\<close>

definition full_page_with_window :: response where
  "full_page_with_window =
     \<lparr>status = 200, x_ratelimit_limit = Some 60, x_ratelimit_remaining = Some 59,
      x_ratelimit_reset = Some 5, content_type_json = True, body = replicate 100 ''u''\<rparr>"

definition bare_429 :: response where
  "bare_429 =
     \<lparr>status = 429, x_ratelimit_limit = None, x_ratelimit_remaining = None,
      x_ratelimit_reset = None, content_type_json = False, body = []\<rparr>"

definition window_then_429 :: server where
  "window_then_429 =
     script [Response full_page_with_window, Response bare_429, Response bare_429,
             Response bare_429]"

definition fixed_random :: random_source where
  "fixed_random = \<lparr>shuffle = (\<lambda>xs. xs), sample = (\<lambda>u population k. take k population)\<rparr>"

definition alice_config :: config where
  "alice_config = \<lparr>config.username = ''me'', seeds_count = 5, pages_per_seed = 2, max_random_page = 5\<rparr>"

section \<open>Reconciliation sets\<close>

text \<open>
  C3. For arbitrary sets of followers, following, the two exclusion sets and a list of
  protected accounts, the state computes exactly
  toFollow = followers - following - excludeFollow and
  toUnfollow = (following - followers - protected usernames) - excludeUnfollow.
\<close>

theorem reconciliation_sets_exact:
  "get_users_to_follow
     \<lparr>followers = F, following = G, ban_list_followers = XF, ban_list_following = XU,
      promoted_users = ps\<rparr> = F - G - XF
   \<and> get_users_to_unfollow
     \<lparr>followers = F, following = G, ban_list_followers = XF, ban_list_following = XU,
      promoted_users = ps\<rparr> = (G - F - username ` set ps) - XU"
  by (simp add: get_users_to_follow_def get_users_to_unfollow_def)

text \<open>
  C4 (as stated, refuted). The claim says that neither computed set ever contains the
  managed account's own username. The state has no notion of the own account: a follower
  set holding the own name yields it as a follow target, and a following set holding it
  yields it as an unfollow target.
\<close>

theorem own_username_counterexample:
  "''octocat'' \<in> get_users_to_follow
     \<lparr>followers = {''octocat''}, following = {}, ban_list_followers = {},
      ban_list_following = {}, promoted_users = []\<rparr>
   \<and> ''octocat'' \<in> get_users_to_unfollow
     \<lparr>followers = {}, following = {''octocat''}, ban_list_followers = {},
      ban_list_following = {}, promoted_users = []\<rparr>"
  by (simp add: get_users_to_follow_def get_users_to_unfollow_def)

text \<open>
  C4 (amended). The two computed sets are disjoint for every state; the own username is
  absent from the follow targets when it is not among the followers, and absent from the
  unfollow targets when it is not among the following.
\<close>

theorem reconciliation_sets_disjoint:
  "get_users_to_follow s \<inter> get_users_to_unfollow s = {}
   \<and> (me \<notin> followers s \<longrightarrow> me \<notin> get_users_to_follow s)
   \<and> (me \<notin> following s \<longrightarrow> me \<notin> get_users_to_unfollow s)"
  by (auto simp add: get_users_to_follow_def get_users_to_unfollow_def)

theorem reconciliation_sets_disjoint_witness:
  "''me'' \<notin> followers
       \<lparr>followers = {''a'', ''b'', ''c''}, following = {''b'', ''c'', ''d''},
        ban_list_followers = {}, ban_list_following = {}, promoted_users = []\<rparr>
   \<and> ''me'' \<notin> following
       \<lparr>followers = {''a'', ''b'', ''c''}, following = {''b'', ''c'', ''d''},
        ban_list_followers = {}, ban_list_following = {}, promoted_users = []\<rparr>
   \<and> get_users_to_follow
       \<lparr>followers = {''a'', ''b'', ''c''}, following = {''b'', ''c'', ''d''},
        ban_list_followers = {}, ban_list_following = {}, promoted_users = []\<rparr>
     \<inter> get_users_to_unfollow
       \<lparr>followers = {''a'', ''b'', ''c''}, following = {''b'', ''c'', ''d''},
        ban_list_followers = {}, ban_list_following = {}, promoted_users = []\<rparr> = {}
   \<and> ''me'' \<notin> get_users_to_follow
       \<lparr>followers = {''a'', ''b'', ''c''}, following = {''b'', ''c'', ''d''},
        ban_list_followers = {}, ban_list_following = {}, promoted_users = []\<rparr>
   \<and> ''me'' \<notin> get_users_to_unfollow
       \<lparr>followers = {''a'', ''b'', ''c''}, following = {''b'', ''c'', ''d''},
        ban_list_followers = {}, ban_list_following = {}, promoted_users = []\<rparr>"
  using reconciliation_sets_disjoint
    [of "\<lparr>followers = {''a'', ''b'', ''c''}, following = {''b'', ''c'', ''d''},
         ban_list_followers = {}, ban_list_following = {}, promoted_users = []\<rparr>" "''me''"]
  by simp

section \<open>Whole quotients\<close>

lemma div_times_le: "0 < (b::int) \<Longrightarrow> a div b * b \<le> a"
  using div_mult_mod_eq [of a b] pos_mod_sign [of b a] by linarith

lemma le_div_of_times_le: "0 < (b::int) \<Longrightarrow> x * b \<le> y \<Longrightarrow> x \<le> y div b"
  using zdiv_mono1 [of "x * b" y b] by simp

lemma less_div_iff_times: "0 < (k::int) \<Longrightarrow> (n < x div k) = ((n + 1) * k \<le> x)"
proof
  assume k: "0 < k" and "n < x div k"
  then have "n + 1 \<le> x div k" by simp
  then have "(n + 1) * k \<le> x div k * k" using k by (simp add: mult_right_mono)
  with div_times_le [OF k, of x] show "(n + 1) * k \<le> x" by linarith
next
  assume k: "0 < k" and "(n + 1) * k \<le> x"
  from le_div_of_times_le [OF this] show "n < x div k" by simp
qed




section \<open>Expiry of protected accounts\<close>

lemma less_div_us_per_day:
  "(n < x div us_per_day) = ((n + 1) * us_per_day \<le> x)"
  by (rule less_div_iff_times) (simp add: us_per_day_def us_per_second_def)

text \<open>
  C7. A protected account is expired exactly when its age is at least the retention
  period plus one whole day. So an account acquired D whole days, and a remainder of
  less than a day, before now is expired if and only if D exceeds the retention period:
  at D equal to the retention period it is not expired, whatever the remainder (none
  in particular).
\<close>

theorem is_expired_by_whole_days:
  "(is_expired u now days \<longleftrightarrow> (days + 1) * us_per_day \<le> now - promotion_date u)
   \<and> (0 \<le> r \<and> r < us_per_day
      \<longrightarrow> (is_expired \<lparr>username = nm, promotion_date = now - (D * us_per_day + r)\<rparr> now days
           \<longleftrightarrow> days < D))"
proof -
  have "is_expired u now days \<longleftrightarrow> (days + 1) * us_per_day \<le> now - promotion_date u"
    by (simp add: is_expired_def timedelta_days_def Let_def less_div_us_per_day)
  moreover have "(D * us_per_day + r) div us_per_day = D" if "0 \<le> r \<and> r < us_per_day"
    using that by (simp add: us_per_day_def us_per_second_def)
  ultimately show ?thesis
    by (simp add: is_expired_def timedelta_days_def Let_def)
qed

theorem is_expired_by_whole_days_witness:
  "0 \<le> us_per_day - 1 \<and> us_per_day - 1 < us_per_day
   \<and> \<not> is_expired \<lparr>username = ''bob'',
          promotion_date = 1000 * us_per_day - (3 * us_per_day + (us_per_day - 1))\<rparr>
         (1000 * us_per_day) 3
   \<and> is_expired \<lparr>username = ''bob'',
          promotion_date = 1000 * us_per_day - (4 * us_per_day + 0)\<rparr>
         (1000 * us_per_day) 3"
proof -
  have h: "0 \<le> us_per_day - 1 \<and> us_per_day - 1 < us_per_day"
    by (simp add: us_per_day_def us_per_second_def)
  have h0: "(0::int) \<le> 0 \<and> 0 < us_per_day"
    by (simp add: us_per_day_def us_per_second_def)
  show ?thesis
    using is_expired_by_whole_days
        [where now = "1000 * us_per_day" and days = 3 and r = "us_per_day - 1"
           and nm = "''bob''" and D = 3]
      is_expired_by_whole_days
        [where now = "1000 * us_per_day" and days = 3 and r = 0 and nm = "''bob''" and D = 4]
      h h0
    by simp
qed

section \<open>Exclusion lists handed to reconciliation\<close>

text \<open>
  C8. Loading the ban lists from a configuration provider holding never_follow,
  never_unfollow and ignore_completely gives the state the follow-exclusion set
  never_follow \<union> ignore_completely and the unfollow-exclusion set never_unfollow:
  ignore_completely contributes nothing to the unfollow side.
\<close>

theorem load_ban_lists_asymmetric:
  "\<exists>s'. load_ban_lists
          (Some \<lparr>ban_lists = \<lparr>never_follow = nf, never_unfollow = nu,
                              ignore_completely = ic\<rparr>\<rparr>) s = Inr s'
        \<and> ban_list_followers s' = nf \<union> ic
        \<and> ban_list_following s' = nu
        \<and> followers s' = followers s \<and> following s' = following s"
  by (simp add: load_ban_lists_def get_combined_ban_list_followers_def
      get_combined_ban_list_following_def)

section \<open>Retry and rate limiting in \<open>_make_request\<close>\<close>

lemma sent_sleep [simp]: "sent (sleep d c) = sent c"
  by (simp add: sleep_def)

lemma utc_offset_sleep [simp]: "utc_offset (sleep d c) = utc_offset c"
  by (simp add: sleep_def)

lemma rate_limit_sleep [simp]: "rate_limit (sleep d c) = rate_limit c"
  by (simp add: sleep_def)

lemma update_rate_limit_keeps:
  "update_rate_limit r c = Inr c2
   \<Longrightarrow> sent c2 = sent c \<and> clock c2 = clock c \<and> utc_offset c2 = utc_offset c"
  by (auto simp add: update_rate_limit_def split: if_splits sum.splits)



lemma make_request_loop_429:
  assumes "attempt < max_retries"
    and "srv (length (sent c)) req = Response r"
    and "status r = 429"
    and "update_rate_limit r (c\<lparr>sent := sent c @ [req]\<rparr>) = Inr c2"
    and "rate_limit c2 = Some rl"
  shows "make_request_loop srv req attempt d c =
           make_request_loop srv req (attempt + 1) d
             (sleep (seconds_until_reset rl (clock c) + 1) c2)"
  using assms update_rate_limit_keeps [OF assms(4)]
  by (subst make_request_loop.simps) (simp add: session_request_def Let_def)












section \<open>Pagination\<close>

lemma get_followers_loop_limit:
  "page_limit_reached mp p \<Longrightarrow> get_followers_loop mk u mp p acc s = Some (Inr acc, s)"
  by (subst get_followers_loop.simps) simp

lemma get_followers_loop_full:
  "\<not> page_limit_reached mp p \<Longrightarrow> mk (followers_request u p) s = (Inr data, s1)
   \<Longrightarrow> PER_PAGE \<le> length (items data)
   \<Longrightarrow> get_followers_loop mk u mp p acc s
       = get_followers_loop mk u mp (p + 1) (acc @ items data) s1"
  by (subst get_followers_loop.simps) (auto simp add: PER_PAGE_def)

lemma get_followers_loop_short:
  "\<not> page_limit_reached mp p \<Longrightarrow> mk (followers_request u p) s = (Inr data, s1)
   \<Longrightarrow> length (items data) < PER_PAGE
   \<Longrightarrow> get_followers_loop mk u mp p acc s = Some (Inr (acc @ items data), s1)"
  by (subst get_followers_loop.simps) auto

lemma make_request_ok:
  "srv (length (sent c)) req = Response r \<Longrightarrow> status r < 400
   \<Longrightarrow> update_rate_limit r (c\<lparr>sent := sent c @ [req]\<rparr>) = Inr c'
   \<Longrightarrow> make_request srv req c
       = (Inr (Some (if content_type_json r then JList (body r) else JEmptyDict)), c')"
  unfolding make_request_def
  by (subst make_request_loop.simps)
     (simp add: max_retries_def session_request_def Let_def)

lemma make_request_page_server:
  "make_request (page_server pages) (followers_request u p) c
     = (Inr (Some (JList (pages p))), c\<lparr>sent := sent c @ [followers_request u p]\<rparr>)"
  by (subst make_request_ok [where r = "\<lparr>status = 200, x_ratelimit_limit = None,
        x_ratelimit_remaining = None, x_ratelimit_reset = None, content_type_json = True,
        body = pages p\<rparr>" and c' = "c\<lparr>sent := sent c @ [followers_request u p]\<rparr>"])
     (simp_all add: page_server_def json_page_def followers_request_def update_rate_limit_def)

lemma loop_full_pages:
  "(\<forall>q. p \<le> q \<and> q < p + n \<longrightarrow> PER_PAGE \<le> length (pages q) \<and> \<not> page_limit_reached mp q)
   \<Longrightarrow> get_followers_loop (make_request (page_server pages)) u mp p acc c
       = get_followers_loop (make_request (page_server pages)) u mp (p + n)
           (acc @ concat (map pages [p..<p + n]))
           (c\<lparr>sent := sent c @ map (followers_request u) [p..<p + n]\<rparr>)"
proof (induction n arbitrary: p acc c)
  case 0
  then show ?case by simp
next
  case (Suc n)
  have here: "PER_PAGE \<le> length (pages p)" "\<not> page_limit_reached mp p"
    using Suc.prems by auto
  have rest: "\<forall>q. Suc p \<le> q \<and> q < Suc p + n
                \<longrightarrow> PER_PAGE \<le> length (pages q) \<and> \<not> page_limit_reached mp q"
    using Suc.prems by auto
  have "get_followers_loop (make_request (page_server pages)) u mp p acc c
          = get_followers_loop (make_request (page_server pages)) u mp (Suc p)
              (acc @ pages p) (c\<lparr>sent := sent c @ [followers_request u p]\<rparr>)"
    using get_followers_loop_full
      [where mk = "make_request (page_server pages)" and data = "Some (JList (pages p))"
         and acc = acc and u = u, OF here(2) make_request_page_server]
      here(1)
    by simp
  also have "\<dots> = get_followers_loop (make_request (page_server pages)) u mp (Suc p + n)
              ((acc @ pages p) @ concat (map pages [Suc p..<Suc p + n]))
              (c\<lparr>sent := sent c @ [followers_request u p],
                 sent := sent (c\<lparr>sent := sent c @ [followers_request u p]\<rparr>)
                         @ map (followers_request u) [Suc p..<Suc p + n]\<rparr>)"
    using Suc.IH [OF rest] by simp
  finally show ?case
    using upt_conv_Cons [of p "p + Suc n"] by (simp del: upt_Suc)
qed

lemma get_followers_no_limit:
  assumes "\<And>q. \<not> page_limit_reached mp q"
    and "1 \<le> j" and "\<forall>q. 1 \<le> q \<and> q < j \<longrightarrow> PER_PAGE \<le> length (pages q)"
    and "length (pages j) < PER_PAGE"
  shows "get_followers_loop (make_request (page_server pages)) u mp 1 [] c
           = Some (Inr (concat (map pages [1..<Suc j])),
                   c\<lparr>sent := sent c @ map (followers_request u) [1..<Suc j]\<rparr>)"
proof -
  have full: "\<forall>q. 1 \<le> q \<and> q < 1 + (j - 1)
                \<longrightarrow> PER_PAGE \<le> length (pages q) \<and> \<not> page_limit_reached mp q"
    using assms(1,3) by auto
  have j: "1 + (j - 1) = j" using assms(2) by simp
  show ?thesis
    using loop_full_pages [OF full, of u "[]" c]
      get_followers_loop_short
        [where mk = "make_request (page_server pages)" and data = "Some (JList (pages j))"
           and u = u and p = j and mp = mp, OF assms(1) make_request_page_server]
      assms(2,4)
    by (simp add: j)
qed

lemma get_followers_unbounded:
  assumes "1 \<le> j" and "\<forall>q. 1 \<le> q \<and> q < j \<longrightarrow> PER_PAGE \<le> length (pages q)"
    and "length (pages j) < PER_PAGE"
  shows "get_followers_loop (make_request (page_server pages)) u None 1 [] c
           = Some (Inr (concat (map pages [1..<Suc j])),
                   c\<lparr>sent := sent c @ map (followers_request u) [1..<Suc j]\<rparr>)"
  using assms by (intro get_followers_no_limit) (simp_all add: page_limit_reached_def)

lemma get_followers_bounded:
  assumes "1 \<le> m"
  shows "\<exists>j. 1 \<le> j \<and> j \<le> m
           \<and> get_followers_loop (make_request (page_server pages)) u (Some (int m)) 1 [] c
               = Some (Inr (concat (map pages [1..<Suc j])),
                       c\<lparr>sent := sent c @ map (followers_request u) [1..<Suc j]\<rparr>)
           \<and> (j < m \<longrightarrow> length (pages j) < PER_PAGE)
           \<and> (\<forall>q. 1 \<le> q \<and> q < j \<longrightarrow> PER_PAGE \<le> length (pages q))"
proof (cases "\<exists>q. 1 \<le> q \<and> q \<le> m \<and> length (pages q) < PER_PAGE")
  case True
  then obtain j where j: "1 \<le> j" "j \<le> m" "length (pages j) < PER_PAGE"
    and least: "\<forall>q<j. \<not> (1 \<le> q \<and> q \<le> m \<and> length (pages q) < PER_PAGE)"
    using exists_least_iff [of "\<lambda>q. 1 \<le> q \<and> q \<le> m \<and> length (pages q) < PER_PAGE"]
    by auto
  have nolimit: "\<not> page_limit_reached (Some (int m)) q" if "q \<le> m" for q
    using that by (simp add: page_limit_reached_def)
  have full: "\<forall>q. 1 \<le> q \<and> q < 1 + (j - 1)
                \<longrightarrow> PER_PAGE \<le> length (pages q) \<and> \<not> page_limit_reached (Some (int m)) q"
    using least j nolimit by (auto simp add: not_less)
  have j1: "1 + (j - 1) = j" using j(1) by simp
  have "get_followers_loop (make_request (page_server pages)) u (Some (int m)) 1 [] c
               = Some (Inr (concat (map pages [1..<Suc j])),
                       c\<lparr>sent := sent c @ map (followers_request u) [1..<Suc j]\<rparr>)"
    using loop_full_pages [OF full, of u "[]" c]
      get_followers_loop_short
        [where mk = "make_request (page_server pages)" and data = "Some (JList (pages j))"
           and u = u and p = j and mp = "Some (int m)", OF nolimit [OF j(2)] make_request_page_server]
      j(1,3)
    by (simp add: j1)
  moreover have "\<forall>q. 1 \<le> q \<and> q < j \<longrightarrow> PER_PAGE \<le> length (pages q)"
    using least j(2) by (auto simp add: not_less)
  ultimately show ?thesis using j by blast
next
  case False
  have nolimit: "\<not> page_limit_reached (Some (int m)) q" if "q \<le> m" for q
    using that by (simp add: page_limit_reached_def)
  have full: "\<forall>q. 1 \<le> q \<and> q < 1 + m
                \<longrightarrow> PER_PAGE \<le> length (pages q) \<and> \<not> page_limit_reached (Some (int m)) q"
    using False nolimit by (auto simp add: not_less)
  have stop: "page_limit_reached (Some (int m)) (1 + m)"
    using assms by (simp add: page_limit_reached_def)
  have "get_followers_loop (make_request (page_server pages)) u (Some (int m)) 1 [] c
               = Some (Inr (concat (map pages [1..<Suc m])),
                       c\<lparr>sent := sent c @ map (followers_request u) [1..<Suc m]\<rparr>)"
    using loop_full_pages [OF full, of u "[]" c] get_followers_loop_limit [OF stop]
    by (simp del: upt_Suc)
  moreover have "\<forall>q. 1 \<le> q \<and> q < m \<longrightarrow> PER_PAGE \<le> length (pages q)"
    using False by (auto simp add: not_less)
  ultimately show ?thesis using assms by blast
qed

text \<open>
  Pagination against a server of pages. Without a page limit the fetch stops at the
  first page j holding fewer than \<open>PER_PAGE\<close> items, having asked for exactly the pages
  1 to j, in this order, and returns their concatenation. With a page limit m of at
  least 1 it always returns, having asked for exactly the pages 1 to j for some j of at
  most m; when j is below m the page j is a short one, and every page before j is full.
\<close>

lemma get_followers_pagination:
  "(1 \<le> j \<and> (\<forall>q. 1 \<le> q \<and> q < j \<longrightarrow> PER_PAGE \<le> length (pages q))
      \<and> length (pages j) < PER_PAGE
    \<longrightarrow> get_followers (make_request (page_server pages)) me None None c
        = Some (Inr (concat (map pages [1..<Suc j])),
                c\<lparr>sent := sent c @ map (followers_request me) [1..<Suc j]\<rparr>))
   \<and> (1 \<le> m
    \<longrightarrow> (\<exists>j. 1 \<le> j \<and> j \<le> m
           \<and> get_followers (make_request (page_server pages)) me None (Some (int m)) c
               = Some (Inr (concat (map pages [1..<Suc j])),
                       c\<lparr>sent := sent c @ map (followers_request me) [1..<Suc j]\<rparr>)
           \<and> (j < m \<longrightarrow> length (pages j) < PER_PAGE)
           \<and> (\<forall>q. 1 \<le> q \<and> q < j \<longrightarrow> PER_PAGE \<le> length (pages q))))"
  unfolding get_followers_def Let_def option.case
  using get_followers_unbounded [of j pages me c] get_followers_bounded [of m pages me c]
  by blast

lemma get_followers_pagination_example:
  "get_followers
     (make_request (page_server (\<lambda>p. if p < 3 then replicate 100 ''u'' else [''v''])))
     ''me'' None None client0
     = Some (Inr (concat (map (\<lambda>p. if p < 3 then replicate 100 ''u'' else [''v''])
                            [1..<Suc 3])),
             client0\<lparr>sent := sent client0 @ map (followers_request ''me'') [1..<Suc 3]\<rparr>)
   \<and> (\<exists>j. 1 \<le> j \<and> j \<le> 2
         \<and> get_followers
             (make_request (page_server (\<lambda>p. if p < 3 then replicate 100 ''u'' else [''v''])))
             ''me'' None (Some (int 2)) client0
             = Some (Inr (concat (map (\<lambda>p. if p < 3 then replicate 100 ''u'' else [''v''])
                                    [1..<Suc j])),
                     client0\<lparr>sent := sent client0 @ map (followers_request ''me'') [1..<Suc j]\<rparr>))"
proof -
  have "(1::nat) \<le> 3 \<and> (\<forall>q. 1 \<le> q \<and> q < 3
           \<longrightarrow> PER_PAGE \<le> length (if q < 3 then replicate 100 ''u'' else [''v'']))
        \<and> length (if (3::nat) < 3 then replicate 100 ''u'' else [''v'']) < PER_PAGE"
    by (simp add: PER_PAGE_def)
  moreover have "(1::nat) \<le> 2" by simp
  ultimately show ?thesis
    using get_followers_pagination
      [of 3 "\<lambda>p. if p < 3 then replicate 100 ''u'' else [''v'']" "''me''" client0 2]
    by blast
qed

lemma upt_1_4: "[1..<Suc 3] = [1, 2, 3]"
  by (simp add: upt_rec)

text \<open>
  C5 (the code fails the claim). The claim says that a supplied \<open>maxPages\<close> bounds the
  number of pages requested, whatever data remains. The guard of the loop is
  \<open>max_pages and page > max_pages\<close>, which a supplied \<open>max_pages = 0\<close> makes falsy: against
  a server of two full pages and a short one, the fetch limited to 0 pages asks for the
  pages 1, 2 and 3 and returns all 201 followers.
\<close>

theorem zero_page_limit_is_ignored:
  "get_followers (make_request (page_server three_pages)) ''me'' None (Some 0) client0
     = Some (Inr (replicate 100 ''u'' @ replicate 100 ''u'' @ [''v'']),
             client0\<lparr>sent := [followers_request ''me'' 1, followers_request ''me'' 2,
                              followers_request ''me'' 3]\<rparr>)"
proof -
  have nolimit: "\<not> page_limit_reached (Some 0) q" for q
    by (simp add: page_limit_reached_def)
  have full: "\<forall>q. 1 \<le> q \<and> q < 3 \<longrightarrow> PER_PAGE \<le> length (three_pages q)"
    by (simp add: three_pages_def PER_PAGE_def)
  have short: "length (three_pages 3) < PER_PAGE"
    by (simp add: three_pages_def PER_PAGE_def)
  have "get_followers_loop (make_request (page_server three_pages)) ''me'' (Some 0) 1 [] client0
          = Some (Inr (concat (map three_pages [1..<Suc 3])),
                  client0\<lparr>sent := sent client0 @ map (followers_request ''me'') [1..<Suc 3]\<rparr>)"
    using nolimit _ full short by (rule get_followers_no_limit) simp
  then show ?thesis
    unfolding get_followers_def Let_def option.case upt_1_4
    by (simp add: three_pages_def client0_def)
qed

section \<open>Persistent rate limiting\<close>

lemma get_following_loop_limit:
  "page_limit_reached mp p \<Longrightarrow> get_following_loop mk u mp p acc s = Some (Inr acc, s)"
  by (subst get_following_loop.simps) simp

lemma get_following_loop_full:
  "\<not> page_limit_reached mp p \<Longrightarrow> mk (following_request u p) s = (Inr data, s1)
   \<Longrightarrow> PER_PAGE \<le> length (items data)
   \<Longrightarrow> get_following_loop mk u mp p acc s
       = get_following_loop mk u mp (p + 1) (acc @ items data) s1"
  by (subst get_following_loop.simps) (auto simp add: PER_PAGE_def)

lemma get_following_loop_short:
  "\<not> page_limit_reached mp p \<Longrightarrow> mk (following_request u p) s = (Inr data, s1)
   \<Longrightarrow> length (items data) < PER_PAGE
   \<Longrightarrow> get_following_loop mk u mp p acc s = Some (Inr (acc @ items data), s1)"
  by (subst get_following_loop.simps) auto

lemma update_accepted:
  "reset_accepted (utc_offset c) r
   \<Longrightarrow> \<exists>c'. update_rate_limit r c = Inr c' \<and> sent c' = sent c
            \<and> utc_offset c' = utc_offset c
            \<and> (rate_limit c \<noteq> None \<or> x_ratelimit_limit r \<noteq> None \<longrightarrow> rate_limit c' \<noteq> None)"
  by (cases "x_ratelimit_limit r")
     (auto simp add: reset_accepted_def update_rate_limit_def fromtimestamp_def)

lemma make_request_loop_limited:
  "attempt + n = max_retries
   \<Longrightarrow> (\<forall>i<n. \<exists>r. srv (length (sent c) + i) req = Response r \<and> status r = 429
                    \<and> reset_accepted (utc_offset c) r)
   \<Longrightarrow> rate_limit c \<noteq> None
       \<or> (\<exists>r. srv (length (sent c)) req = Response r \<and> x_ratelimit_limit r \<noteq> None)
   \<Longrightarrow> fst (make_request_loop srv req attempt d c) = Inr None"
proof (induction n arbitrary: attempt d c)
  case 0
  then show ?case by (simp add: make_request_loop.simps)
next
  case (Suc n)
  from Suc.prems(2) obtain r where r: "srv (length (sent c)) req = Response r"
      "status r = 429" "reset_accepted (utc_offset c) r"
    by force
  let ?c1 = "c\<lparr>sent := sent c @ [req]\<rparr>"
  from r(3) have "reset_accepted (utc_offset ?c1) r" by simp
  from update_accepted [OF this]
  obtain c2 where c2: "update_rate_limit r ?c1 = Inr c2" "sent c2 = sent ?c1"
      "utc_offset c2 = utc_offset ?c1"
      "rate_limit ?c1 \<noteq> None \<or> x_ratelimit_limit r \<noteq> None \<longrightarrow> rate_limit c2 \<noteq> None"
    by blast
  have "rate_limit ?c1 \<noteq> None \<or> x_ratelimit_limit r \<noteq> None"
    using Suc.prems(3) r(1) by auto
  with c2(4) obtain rl where rl: "rate_limit c2 = Some rl" by auto
  let ?c = "sleep (seconds_until_reset rl (clock c) + 1) c2"
  have lt: "attempt < max_retries" using Suc.prems(1) by simp
  have next_replies: "\<forall>i<n. \<exists>r. srv (length (sent ?c) + i) req = Response r
                        \<and> status r = 429 \<and> reset_accepted (utc_offset ?c) r"
    using Suc.prems(2) c2(2,3) by (auto simp add: less_Suc_eq_0_disj)
  have window: "rate_limit ?c \<noteq> None
       \<or> (\<exists>r. srv (length (sent ?c)) req = Response r \<and> x_ratelimit_limit r \<noteq> None)"
    using rl by simp
  have "Suc attempt + n = max_retries" using Suc.prems(1) by simp
  from Suc.IH [OF this next_replies window]
  show ?case
    using make_request_loop_429 [where srv = srv and c = c and req = req and d = d,
        OF lt r(1,2) c2(1) rl]
    by simp
qed

lemma make_request_limited:
  "(\<forall>i<max_retries. \<exists>r. srv (length (sent c) + i) req = Response r \<and> status r = 429
                    \<and> reset_accepted (utc_offset c) r)
   \<Longrightarrow> rate_limit c \<noteq> None
       \<or> (\<exists>r. srv (length (sent c)) req = Response r \<and> x_ratelimit_limit r \<noteq> None)
   \<Longrightarrow> fst (make_request srv req c) = Inr None"
  unfolding make_request_def by (rule make_request_loop_limited) simp_all

lemma get_followers_loop_limited:
  assumes "\<forall>q<k. \<exists>r. srv (length (sent c) + q) (followers_request u (p + q)) = Response r
                   \<and> status r < 400 \<and> content_type_json r \<and> body r = pages (p + q)
                   \<and> PER_PAGE \<le> length (pages (p + q)) \<and> reset_accepted (utc_offset c) r"
    and "\<forall>i<max_retries. \<exists>r. srv (length (sent c) + k + i) (followers_request u (p + k))
                   = Response r \<and> status r = 429 \<and> reset_accepted (utc_offset c) r"
    and "rate_limit c \<noteq> None
         \<or> (\<exists>q\<le>k. \<exists>r. srv (length (sent c) + q) (followers_request u (p + q)) = Response r
                      \<and> x_ratelimit_limit r \<noteq> None)"
  shows "\<exists>c'. get_followers_loop (make_request srv) u None p acc c
                 = Some (Inr (acc @ concat (map pages [p..<p + k])), c')"
  using assms
proof (induction k arbitrary: p acc c)
  case 0
  have none: "fst (make_request srv (followers_request u p) c) = Inr None"
    using make_request_limited [of srv c "followers_request u p"] "0.prems"(2,3) by simp
  show ?case
    by (subst get_followers_loop.simps)
       (use none in \<open>auto simp add: page_limit_reached_def split: prod.splits sum.splits\<close>)
next
  case (Suc k)
  from Suc.prems(1) obtain r where r: "srv (length (sent c)) (followers_request u p) = Response r"
      "status r < 400" "content_type_json r" "body r = pages p" "PER_PAGE \<le> length (pages p)"
      "reset_accepted (utc_offset c) r"
    by force
  let ?c1 = "c\<lparr>sent := sent c @ [followers_request u p]\<rparr>"
  from r(6) have "reset_accepted (utc_offset ?c1) r" by simp
  from update_accepted [OF this]
  obtain c2 where c2: "update_rate_limit r ?c1 = Inr c2" "sent c2 = sent ?c1"
      "utc_offset c2 = utc_offset ?c1"
      "rate_limit ?c1 \<noteq> None \<or> x_ratelimit_limit r \<noteq> None \<longrightarrow> rate_limit c2 \<noteq> None"
    by blast
  have mk: "make_request srv (followers_request u p) c = (Inr (Some (JList (pages p))), c2)"
    using make_request_ok [where srv = srv and c = c and req = "followers_request u p",
        OF r(1,2) c2(1)] r(3,4)
    by simp
  have nolimit: "\<not> page_limit_reached None p" by (simp add: page_limit_reached_def)
  have step: "get_followers_loop (make_request srv) u None p acc c
                = get_followers_loop (make_request srv) u None (Suc p) (acc @ pages p) c2"
    using get_followers_loop_full [where mk = "make_request srv", OF nolimit mk, of acc] r(5)
    by simp
  have ok: "\<forall>q<k. \<exists>r. srv (length (sent c2) + q) (followers_request u (Suc p + q)) = Response r
                   \<and> status r < 400 \<and> content_type_json r \<and> body r = pages (Suc p + q)
                   \<and> PER_PAGE \<le> length (pages (Suc p + q)) \<and> reset_accepted (utc_offset c2) r"
    using Suc.prems(1) c2(2,3) by (auto simp add: less_Suc_eq_0_disj)
  have lim: "\<forall>i<max_retries. \<exists>r. srv (length (sent c2) + k + i) (followers_request u (Suc p + k))
                   = Response r \<and> status r = 429 \<and> reset_accepted (utc_offset c2) r"
    using Suc.prems(2) c2(2,3) by simp
  have avail: "rate_limit c2 \<noteq> None
         \<or> (\<exists>q\<le>k. \<exists>r. srv (length (sent c2) + q) (followers_request u (Suc p + q)) = Response r
                      \<and> x_ratelimit_limit r \<noteq> None)"
  proof (cases "rate_limit c \<noteq> None \<or> x_ratelimit_limit r \<noteq> None")
    case True
    then have "rate_limit c2 \<noteq> None" using c2(4) by simp
    then show ?thesis by simp
  next
    case False
    with Suc.prems(3) obtain q r' where q: "q \<le> Suc k"
        "srv (length (sent c) + q) (followers_request u (p + q)) = Response r'"
        "x_ratelimit_limit r' \<noteq> None"
      by blast
    have "q \<noteq> 0" using q(2,3) r(1) False by (cases q) auto
    then obtain q' where q': "q = Suc q'" by (cases q) auto
    with q c2(2) have "q' \<le> k
        \<and> srv (length (sent c2) + q') (followers_request u (Suc p + q')) = Response r'
        \<and> x_ratelimit_limit r' \<noteq> None"
      by simp
    then show ?thesis by blast
  qed
  from Suc.IH [OF ok lim avail, of "acc @ pages p"] obtain c' where
    "get_followers_loop (make_request srv) u None (Suc p) (acc @ pages p) c2
       = Some (Inr ((acc @ pages p) @ concat (map pages [Suc p..<Suc p + k])), c')"
    by blast
  then show ?case
    using step upt_conv_Cons [of p "p + Suc k"] by (simp del: upt_Suc)
qed

lemma get_following_loop_limited:
  assumes "\<forall>q<k. \<exists>r. srv (length (sent c) + q) (following_request u (p + q)) = Response r
                   \<and> status r < 400 \<and> content_type_json r \<and> body r = pages (p + q)
                   \<and> PER_PAGE \<le> length (pages (p + q)) \<and> reset_accepted (utc_offset c) r"
    and "\<forall>i<max_retries. \<exists>r. srv (length (sent c) + k + i) (following_request u (p + k))
                   = Response r \<and> status r = 429 \<and> reset_accepted (utc_offset c) r"
    and "rate_limit c \<noteq> None
         \<or> (\<exists>q\<le>k. \<exists>r. srv (length (sent c) + q) (following_request u (p + q)) = Response r
                      \<and> x_ratelimit_limit r \<noteq> None)"
  shows "\<exists>c'. get_following_loop (make_request srv) u None p acc c
                 = Some (Inr (acc @ concat (map pages [p..<p + k])), c')"
  using assms
proof (induction k arbitrary: p acc c)
  case 0
  have none: "fst (make_request srv (following_request u p) c) = Inr None"
    using make_request_limited [of srv c "following_request u p"] "0.prems"(2,3) by simp
  show ?case
    by (subst get_following_loop.simps)
       (use none in \<open>auto simp add: page_limit_reached_def split: prod.splits sum.splits\<close>)
next
  case (Suc k)
  from Suc.prems(1) obtain r where r: "srv (length (sent c)) (following_request u p) = Response r"
      "status r < 400" "content_type_json r" "body r = pages p" "PER_PAGE \<le> length (pages p)"
      "reset_accepted (utc_offset c) r"
    by force
  let ?c1 = "c\<lparr>sent := sent c @ [following_request u p]\<rparr>"
  from r(6) have "reset_accepted (utc_offset ?c1) r" by simp
  from update_accepted [OF this]
  obtain c2 where c2: "update_rate_limit r ?c1 = Inr c2" "sent c2 = sent ?c1"
      "utc_offset c2 = utc_offset ?c1"
      "rate_limit ?c1 \<noteq> None \<or> x_ratelimit_limit r \<noteq> None \<longrightarrow> rate_limit c2 \<noteq> None"
    by blast
  have mk: "make_request srv (following_request u p) c = (Inr (Some (JList (pages p))), c2)"
    using make_request_ok [where srv = srv and c = c and req = "following_request u p",
        OF r(1,2) c2(1)] r(3,4)
    by simp
  have nolimit: "\<not> page_limit_reached None p" by (simp add: page_limit_reached_def)
  have step: "get_following_loop (make_request srv) u None p acc c
                = get_following_loop (make_request srv) u None (Suc p) (acc @ pages p) c2"
    using get_following_loop_full [where mk = "make_request srv", OF nolimit mk, of acc] r(5)
    by simp
  have ok: "\<forall>q<k. \<exists>r. srv (length (sent c2) + q) (following_request u (Suc p + q)) = Response r
                   \<and> status r < 400 \<and> content_type_json r \<and> body r = pages (Suc p + q)
                   \<and> PER_PAGE \<le> length (pages (Suc p + q)) \<and> reset_accepted (utc_offset c2) r"
    using Suc.prems(1) c2(2,3) by (auto simp add: less_Suc_eq_0_disj)
  have lim: "\<forall>i<max_retries. \<exists>r. srv (length (sent c2) + k + i) (following_request u (Suc p + k))
                   = Response r \<and> status r = 429 \<and> reset_accepted (utc_offset c2) r"
    using Suc.prems(2) c2(2,3) by simp
  have avail: "rate_limit c2 \<noteq> None
         \<or> (\<exists>q\<le>k. \<exists>r. srv (length (sent c2) + q) (following_request u (Suc p + q)) = Response r
                      \<and> x_ratelimit_limit r \<noteq> None)"
  proof (cases "rate_limit c \<noteq> None \<or> x_ratelimit_limit r \<noteq> None")
    case True
    then have "rate_limit c2 \<noteq> None" using c2(4) by simp
    then show ?thesis by simp
  next
    case False
    with Suc.prems(3) obtain q r' where q: "q \<le> Suc k"
        "srv (length (sent c) + q) (following_request u (p + q)) = Response r'"
        "x_ratelimit_limit r' \<noteq> None"
      by blast
    have "q \<noteq> 0" using q(2,3) r(1) False by (cases q) auto
    then obtain q' where q': "q = Suc q'" by (cases q) auto
    with q c2(2) have "q' \<le> k
        \<and> srv (length (sent c2) + q') (following_request u (Suc p + q')) = Response r'
        \<and> x_ratelimit_limit r' \<noteq> None"
      by simp
    then show ?thesis by blast
  qed
  from Suc.IH [OF ok lim avail, of "acc @ pages p"] obtain c' where
    "get_following_loop (make_request srv) u None (Suc p) (acc @ pages p) c2
       = Some (Inr ((acc @ pages p) @ concat (map pages [Suc p..<Suc p + k])), c')"
    by blast
  then show ?case
    using step upt_conv_Cons [of p "p + Suc k"] by (simp del: upt_Suc)
qed


text \<open>
  C10. When each of the \<open>max_retries\<close> replies to a request is a 429, each with a reset
  header the client accepts or with no rate-limit header, and rate-limit information is
  available from the first of them on (a window is kept from an earlier reply, or the
  first 429 carries the headers), \<open>_make_request\<close> raises nothing and returns \<open>None\<close>.
  When the server has served k full pages and then answers the request for page k + 1
  in that way, the window being kept from before, or carried by one of the k pages or by
  the first 429, \<open>get_followers\<close> and \<open>get_following\<close> take the \<open>None\<close> for the end of
  the data and return normally the items of the k pages fetched so far.
\<close>

theorem persistent_rate_limit_returns_partial_list:
  "((\<forall>i<max_retries. \<exists>r. srva (length (sent ca) + i) req = Response r \<and> status r = 429
                         \<and> reset_accepted (utc_offset ca) r)
      \<and> (rate_limit ca \<noteq> None
         \<or> (\<exists>r. srva (length (sent ca)) req = Response r \<and> x_ratelimit_limit r \<noteq> None))
      \<longrightarrow> fst (make_request srva req ca) = Inr None)
   \<and> ((\<forall>q<k. \<exists>r. srv (length (sent c) + q) (followers_request me (1 + q)) = Response r
                   \<and> status r < 400 \<and> content_type_json r \<and> body r = pages (1 + q)
                   \<and> PER_PAGE \<le> length (pages (1 + q)) \<and> reset_accepted (utc_offset c) r)
        \<and> (\<forall>i<max_retries. \<exists>r. srv (length (sent c) + k + i) (followers_request me (1 + k))
                   = Response r \<and> status r = 429 \<and> reset_accepted (utc_offset c) r)
        \<and> (rate_limit c \<noteq> None
           \<or> (\<exists>q\<le>k. \<exists>r. srv (length (sent c) + q) (followers_request me (1 + q)) = Response r
                        \<and> x_ratelimit_limit r \<noteq> None))
      \<longrightarrow> (\<exists>c'. get_followers (make_request srv) me None None c
                  = Some (Inr (concat (map pages [1..<1 + k])), c')))
   \<and> ((\<forall>q<kb. \<exists>r. srvb (length (sent cb) + q) (following_request meb (1 + q)) = Response r
                   \<and> status r < 400 \<and> content_type_json r \<and> body r = pagesb (1 + q)
                   \<and> PER_PAGE \<le> length (pagesb (1 + q)) \<and> reset_accepted (utc_offset cb) r)
        \<and> (\<forall>i<max_retries. \<exists>r. srvb (length (sent cb) + kb + i) (following_request meb (1 + kb))
                   = Response r \<and> status r = 429 \<and> reset_accepted (utc_offset cb) r)
        \<and> (rate_limit cb \<noteq> None
           \<or> (\<exists>q\<le>kb. \<exists>r. srvb (length (sent cb) + q) (following_request meb (1 + q)) = Response r
                        \<and> x_ratelimit_limit r \<noteq> None))
      \<longrightarrow> (\<exists>c'. get_following (make_request srvb) meb None None cb
                  = Some (Inr (concat (map pagesb [1..<1 + kb])), c')))"
proof (intro conjI impI)
  assume "(\<forall>i<max_retries. \<exists>r. srva (length (sent ca) + i) req = Response r \<and> status r = 429
                         \<and> reset_accepted (utc_offset ca) r)
      \<and> (rate_limit ca \<noteq> None
         \<or> (\<exists>r. srva (length (sent ca)) req = Response r \<and> x_ratelimit_limit r \<noteq> None))"
  then show "fst (make_request srva req ca) = Inr None"
    using make_request_limited [of srva ca req] by blast
next
  assume "(\<forall>q<k. \<exists>r. srv (length (sent c) + q) (followers_request me (1 + q)) = Response r
                   \<and> status r < 400 \<and> content_type_json r \<and> body r = pages (1 + q)
                   \<and> PER_PAGE \<le> length (pages (1 + q)) \<and> reset_accepted (utc_offset c) r)
        \<and> (\<forall>i<max_retries. \<exists>r. srv (length (sent c) + k + i) (followers_request me (1 + k))
                   = Response r \<and> status r = 429 \<and> reset_accepted (utc_offset c) r)
        \<and> (rate_limit c \<noteq> None
           \<or> (\<exists>q\<le>k. \<exists>r. srv (length (sent c) + q) (followers_request me (1 + q)) = Response r
                        \<and> x_ratelimit_limit r \<noteq> None))"
  then show "(\<exists>c'. get_followers (make_request srv) me None None c
                  = Some (Inr (concat (map pages [1..<1 + k])), c'))"
    unfolding get_followers_def Let_def option.case
    using get_followers_loop_limited [of k srv c me 1 pages "[]"] by simp
next
  assume "(\<forall>q<kb. \<exists>r. srvb (length (sent cb) + q) (following_request meb (1 + q)) = Response r
                   \<and> status r < 400 \<and> content_type_json r \<and> body r = pagesb (1 + q)
                   \<and> PER_PAGE \<le> length (pagesb (1 + q)) \<and> reset_accepted (utc_offset cb) r)
        \<and> (\<forall>i<max_retries. \<exists>r. srvb (length (sent cb) + kb + i) (following_request meb (1 + kb))
                   = Response r \<and> status r = 429 \<and> reset_accepted (utc_offset cb) r)
        \<and> (rate_limit cb \<noteq> None
           \<or> (\<exists>q\<le>kb. \<exists>r. srvb (length (sent cb) + q) (following_request meb (1 + q)) = Response r
                        \<and> x_ratelimit_limit r \<noteq> None))"
  then show "(\<exists>c'. get_following (make_request srvb) meb None None cb
                  = Some (Inr (concat (map pagesb [1..<1 + kb])), c'))"
    unfolding get_following_def Let_def option.case
    using get_following_loop_limited [of kb srvb cb meb 1 pagesb "[]"] by simp
qed

lemma all_less_max_retries: "(\<forall>i<max_retries. P i) \<longleftrightarrow> P 0 \<and> P 1 \<and> P 2"
  by (auto simp add: max_retries_def less_Suc_eq numeral_3_eq_3 numeral_2_eq_2)

theorem persistent_rate_limit_returns_partial_list_witness:
  "fst (make_request ((\<lambda>n req. Response bare_429))
          (follow_request ''bob'') after_limited) = Inr None
   \<and> (\<exists>c'. get_followers (make_request window_then_429) ''me'' None None client0
             = Some (Inr (concat (map (\<lambda>p. replicate 100 ''u'') [1..<1 + 1])), c'))
   \<and> (\<exists>c'. get_following (make_request window_then_429) ''me'' None None client0
             = Some (Inr (concat (map (\<lambda>p. replicate 100 ''u'') [1..<1 + 1])), c'))"
proof -
  have lim: "(\<forall>i<max_retries. \<exists>r.
        (\<lambda>n req. Response bare_429)
          (length (sent after_limited) + i) (follow_request ''bob'') = Response r
        \<and> status r = 429 \<and> reset_accepted (utc_offset after_limited) r)
      \<and> (rate_limit after_limited \<noteq> None
         \<or> (\<exists>r. (\<lambda>n req. Response bare_429)
                  (length (sent after_limited)) (follow_request ''bob'') = Response r
                \<and> x_ratelimit_limit r \<noteq> None))"
    by (simp add: all_less_max_retries script_def after_limited_def client0_def bare_429_def
        reset_accepted_def)
  have f1: "\<forall>q<1. \<exists>r. window_then_429 (length (sent client0) + q) (followers_request ''me'' (1 + q)) = Response r
                   \<and> status r < 400 \<and> content_type_json r
                   \<and> body r = (\<lambda>p. replicate 100 ''u'') (1 + q)
                   \<and> PER_PAGE \<le> length ((\<lambda>p. replicate 100 ''u'') (1 + q))
                   \<and> reset_accepted (utc_offset client0) r"
    by (simp add: script_def window_then_429_def client0_def
        full_page_with_window_def reset_accepted_def get_default_def valid_timestamp_def
        min_timestamp_def max_timestamp_def PER_PAGE_def)
  have f2: "\<forall>i<max_retries. \<exists>r. window_then_429 (length (sent client0) + 1 + i)
                   (followers_request ''me'' (1 + 1)) = Response r
                   \<and> status r = 429 \<and> reset_accepted (utc_offset client0) r"
    by (simp add: all_less_max_retries script_def window_then_429_def client0_def bare_429_def
        reset_accepted_def)
  have f3: "rate_limit client0 \<noteq> None
           \<or> (\<exists>q\<le>1. \<exists>r. window_then_429 (length (sent client0) + q)
                          (followers_request ''me'' (1 + q)) = Response r
                        \<and> x_ratelimit_limit r \<noteq> None)"
    by (intro disjI2 exI [of _ 0])
       (simp add: script_def window_then_429_def client0_def full_page_with_window_def)
  have g1: "\<forall>q<1. \<exists>r. window_then_429 (length (sent client0) + q) (following_request ''me'' (1 + q)) = Response r
                   \<and> status r < 400 \<and> content_type_json r
                   \<and> body r = (\<lambda>p. replicate 100 ''u'') (1 + q)
                   \<and> PER_PAGE \<le> length ((\<lambda>p. replicate 100 ''u'') (1 + q))
                   \<and> reset_accepted (utc_offset client0) r"
    by (simp add: script_def window_then_429_def client0_def
        full_page_with_window_def reset_accepted_def get_default_def valid_timestamp_def
        min_timestamp_def max_timestamp_def PER_PAGE_def)
  have g2: "\<forall>i<max_retries. \<exists>r. window_then_429 (length (sent client0) + 1 + i)
                   (following_request ''me'' (1 + 1)) = Response r
                   \<and> status r = 429 \<and> reset_accepted (utc_offset client0) r"
    by (simp add: all_less_max_retries script_def window_then_429_def client0_def bare_429_def
        reset_accepted_def)
  have g3: "rate_limit client0 \<noteq> None
           \<or> (\<exists>q\<le>1. \<exists>r. window_then_429 (length (sent client0) + q)
                          (following_request ''me'' (1 + q)) = Response r
                        \<and> x_ratelimit_limit r \<noteq> None)"
    by (intro disjI2 exI [of _ 0])
       (simp add: script_def window_then_429_def client0_def full_page_with_window_def)
  show ?thesis
    using persistent_rate_limit_returns_partial_list
      [where srva = "(\<lambda>n req. Response bare_429)"
         and ca = after_limited and req = "follow_request ''bob''"
         and srv = window_then_429 and c = client0 and k = 1
         and pages = "\<lambda>p. replicate 100 ''u''" and me = "''me''"
         and srvb = window_then_429 and cb = client0 and kb = 1
         and pagesb = "\<lambda>p. replicate 100 ''u''" and meb = "''me''"]
      lim f1 f2 f3 g1 g2 g3
    by blast
qed

section \<open>Batch isolation\<close>

lemma gather_length: "length (fst (gather tasks s)) = length tasks"
proof (induction tasks arbitrary: s)
  case Nil
  then show ?case by simp
next
  case (Cons task tasks)
  obtain r s1 where t: "task s = (r, s1)" by force
  obtain rs s2 where g: "gather tasks s1 = (rs, s2)" by force
  from Cons.IH [of s1] g have "length rs = length tasks" by simp
  with t g show ?case by simp
qed

lemma collect_fold_dom:
  "length rs = length us \<Longrightarrow>
   dom (fold (\<lambda>(user, response) results.
                case response of
                  Inl e \<Rightarrow> results(user \<mapsto> False)
                | Inr r \<Rightarrow> results(user \<mapsto> r))
             (zip us rs) m)
     = dom m \<union> set us"
proof (induction us arbitrary: rs m)
  case Nil
  then show ?case by simp
next
  case (Cons u us)
  then obtain r rs' where rs: "rs = r # rs'" by (cases rs) auto
  with Cons.prems have len: "length rs' = length us" by simp
  show ?case
    unfolding rs by (cases r) (auto simp add: Cons.IH [OF len])
qed

lemma collect_results_dom:
  "length rs = length us \<Longrightarrow> dom (collect_results us rs) = set us"
  unfolding collect_results_def by (simp add: collect_fold_dom)

lemma collect_fold_lookup:
  "fold (\<lambda>(user, response) results.
                case response of
                  Inl e \<Rightarrow> results(user \<mapsto> False)
                | Inr r \<Rightarrow> results(user \<mapsto> r))
        (zip us (map out us)) m
     = (\<lambda>u. if u \<in> set us then Some (case out u of Inl e \<Rightarrow> False | Inr r \<Rightarrow> r) else m u)"
proof (induction us arbitrary: m)
  case Nil
  then show ?case by simp
next
  case (Cons a us)
  show ?case
    by (cases "out a") (auto simp add: Cons.IH fun_eq_iff)
qed

lemma collect_results_lookup:
  "collect_results us (map out us)
     = (\<lambda>u. if u \<in> set us then Some (case out u of Inl e \<Rightarrow> False | Inr r \<Rightarrow> r) else None)"
  unfolding collect_results_def by (simp add: collect_fold_lookup)

lemma collect_results_lookup_Inr:
  "collect_results us (map (\<lambda>u. Inr (f u)) us)
     = (\<lambda>u. if u \<in> set us then Some (f u) else None)"
  by (rule ext) (simp add: collect_results_lookup)

lemma batch_follow_dom: "dom (fst (batch_follow mk us s)) = set us"
proof -
  let ?tasks = "map (\<lambda>user s. case follow_user mk user s of (r, s1) \<Rightarrow> (Inr r, s1)) us"
  obtain responses s1 where g: "gather ?tasks s = (responses, s1)" by force
  have "length (fst (gather ?tasks s)) = length us"
    by (simp add: gather_length)
  with g have "length responses = length us" by simp
  with g show ?thesis
    by (simp add: batch_follow_def Let_def collect_results_dom)
qed

lemma batch_unfollow_dom: "dom (fst (batch_unfollow mk us s)) = set us"
proof -
  let ?tasks = "map (\<lambda>user s. case unfollow_user mk user s of (r, s1) \<Rightarrow> (Inr r, s1)) us"
  obtain responses s1 where g: "gather ?tasks s = (responses, s1)" by force
  have "length (fst (gather ?tasks s)) = length us"
    by (simp add: gather_length)
  with g have "length responses = length us" by simp
  with g show ?thesis
    by (simp add: batch_unfollow_def Let_def collect_results_dom)
qed

lemma gather_follow_recording:
  "gather (map (\<lambda>user s. case follow_user (recording oc) user s of (r, s1) \<Rightarrow> (Inr r, s1)) us)
      log
     = (map (\<lambda>u. Inr (case oc (follow_request u) of Inl e \<Rightarrow> False | Inr d \<Rightarrow> True)) us,
        log @ map follow_request us)"
  by (induction us arbitrary: log)
     (auto simp add: follow_user_def recording_def split: sum.splits)

lemma gather_unfollow_recording:
  "gather (map (\<lambda>user s. case unfollow_user (recording oc) user s of (r, s1) \<Rightarrow> (Inr r, s1)) us)
      log
     = (map (\<lambda>u. Inr (case oc (unfollow_request u) of Inl e \<Rightarrow> False | Inr d \<Rightarrow> True)) us,
        log @ map unfollow_request us)"
  by (induction us arbitrary: log)
     (auto simp add: unfollow_user_def recording_def split: sum.splits)

lemma batch_follow_recording:
  "batch_follow (recording oc) us log
     = ((\<lambda>u. if u \<in> set us
              then Some (case oc (follow_request u) of Inl e \<Rightarrow> False | Inr d \<Rightarrow> True)
              else None),
        log @ map follow_request us)"
  by (simp add: batch_follow_def Let_def gather_follow_recording collect_results_lookup_Inr)

lemma batch_unfollow_recording:
  "batch_unfollow (recording oc) us log
     = ((\<lambda>u. if u \<in> set us
              then Some (case oc (unfollow_request u) of Inl e \<Rightarrow> False | Inr d \<Rightarrow> True)
              else None),
        log @ map unfollow_request us)"
  by (simp add: batch_unfollow_def Let_def gather_unfollow_recording collect_results_lookup_Inr)

text \<open>
  The batch operations keep the subjects apart. For every list of subjects they return
  a mapping whose domain is exactly the set of the subjects, whatever the requests do.
  When each subject's request has its own outcome, a subject whose request raises is
  mapped to \<open>False\<close> and every subject whose request returns to \<open>True\<close>; the same
  holds of the aggregation over arbitrary task outcomes \<open>out\<close>, where a task may itself
  have raised.
\<close>

lemma batch_isolation:
  "dom (fst (batch_follow mk us s)) = set us
   \<and> dom (fst (batch_unfollow mk us s)) = set us
   \<and> (\<forall>u \<in> set us.
        fst (batch_follow (recording oc) us log) u
          = Some (case oc (follow_request u) of Inl e \<Rightarrow> False | Inr d \<Rightarrow> True)
        \<and> fst (batch_unfollow (recording oc) us log) u
          = Some (case oc (unfollow_request u) of Inl e \<Rightarrow> False | Inr d \<Rightarrow> True)
        \<and> collect_results us (map out us) u
          = Some (case out u of Inl e \<Rightarrow> False | Inr r \<Rightarrow> r))"
  by (simp add: batch_follow_dom batch_unfollow_dom batch_follow_recording
      batch_unfollow_recording collect_results_lookup)

lemma batch_isolation_example:
  "dom (fst (batch_follow (recording third_fails) five_subjects [])) = set five_subjects
   \<and> fst (batch_follow (recording third_fails) five_subjects []) ''a'' = Some True
   \<and> fst (batch_follow (recording third_fails) five_subjects []) ''b'' = Some True
   \<and> fst (batch_follow (recording third_fails) five_subjects []) ''c'' = Some False
   \<and> fst (batch_follow (recording third_fails) five_subjects []) ''d'' = Some True
   \<and> fst (batch_follow (recording third_fails) five_subjects []) ''e'' = Some True"
  using batch_isolation [of "recording third_fails" five_subjects "[]" third_fails "[]" "\<lambda>u. Inr True"]
  by (simp add: five_subjects_def third_fails_def follow_request_def)

text \<open>
  C6 (the code fails the claim). The claim says that each failing subject is mapped to
  \<open>False\<close>. In a batch of five subjects, let every request about the third one be
  answered with 429 and the rate-limit headers. \<open>_make_request\<close> uses up its three
  attempts on it and returns \<open>None\<close> without having followed anyone; \<open>follow_user\<close>
  takes the return for a success, and the batch maps the third subject to \<open>True\<close>.
\<close>

theorem rate_limited_follow_reported_as_success:
  "fst (make_request third_rate_limited (follow_request ''c'') client0) = Inr None
   \<and> fst (batch_follow (make_request third_rate_limited) five_subjects client0) ''c''
       = Some True"
  by (simp add: batch_follow_def collect_results_def follow_user_def five_subjects_def
      third_rate_limited_def follow_request_def make_request_def make_request_loop.simps
      plain_def limited_def client0_def max_retries_def session_request_def
      update_rate_limit_def sleep_def fromtimestamp_def valid_timestamp_def min_timestamp_def
      max_timestamp_def get_default_def Let_def)

section \<open>Order of the mutation calls\<close>

lemma map_drop_batch:
  "map f (drop i users)
     = map f (take n (drop i users)) @ map f (drop (i + n) users)"
  by (metis add.commute append_take_drop_id drop_drop map_append)

lemma process_follows_loop_calls:
  "snd (process_follows_loop (recording oc) users i results log)
     = log @ map follow_request (drop i users)"
proof (induction "length users - i" arbitrary: i results log rule: less_induct)
  case less
  show ?case
  proof (cases "i < length users")
    case True
    then have "length users - (i + mutation_batch_size) < length users - i"
      by (simp add: mutation_batch_size_def)
    note IH = less.hyps [OF this]
    show ?thesis
      by (subst process_follows_loop.simps)
         (simp add: True batch_follow_recording Let_def IH
            map_drop_batch [of follow_request i users mutation_batch_size])
  next
    case False
    then show ?thesis by (subst process_follows_loop.simps) simp
  qed
qed

lemma process_unfollows_loop_calls:
  "snd (process_unfollows_loop (recording oc) users i results log)
     = log @ map unfollow_request (drop i users)"
proof (induction "length users - i" arbitrary: i results log rule: less_induct)
  case less
  show ?case
  proof (cases "i < length users")
    case True
    then have "length users - (i + mutation_batch_size) < length users - i"
      by (simp add: mutation_batch_size_def)
    note IH = less.hyps [OF this]
    show ?thesis
      by (subst process_unfollows_loop.simps)
         (simp add: True batch_unfollow_recording Let_def IH
            map_drop_batch [of unfollow_request i users mutation_batch_size])
  next
    case False
    then show ?thesis by (subst process_unfollows_loop.simps) simp
  qed
qed

lemma process_follows_calls:
  "snd (process_follows (recording oc) users log) = log @ map follow_request (sort users)"
  by (simp add: process_follows_def process_follows_loop_calls)

lemma process_unfollows_calls:
  "snd (process_unfollows (recording oc) users log) = log @ map unfollow_request (sort users)"
  by (simp add: process_unfollows_def process_unfollows_loop_calls)

lemma sort_of_set:
  "distinct xs \<Longrightarrow> distinct ys \<Longrightarrow> set xs = set ys \<Longrightarrow> sort xs = sort (ys :: username list)"
  by (metis distinct_remdups_id sorted_list_of_set_sort_remdups)

text \<open>
  C9. Each of the two mutation streams makes its calls, one per user, in the
  lexicographically sorted order of the usernames, whatever the outcomes of the calls;
  so two runs given the same set of users, listed in any two orders, make the same
  calls in the same order. The order is that in which the calls of the successive
  batches are launched.
\<close>

theorem mutation_calls_sorted:
  "snd (process_follows (recording oc) users []) = map follow_request (sort users)
   \<and> snd (process_unfollows (recording oc) users []) = map unfollow_request (sort users)
   \<and> sorted (sort users)
   \<and> (distinct xs \<and> distinct ys \<and> set xs = set ys
      \<longrightarrow> snd (process_follows (recording oc) xs []) = snd (process_follows (recording oc) ys [])
        \<and> snd (process_unfollows (recording oc) xs [])
            = snd (process_unfollows (recording oc) ys []))"
  using sort_of_set [of xs ys]
  by (simp add: process_follows_calls process_unfollows_calls)

theorem mutation_calls_sorted_witness:
  "snd (process_follows (recording third_fails) [''e'', ''b'', ''d'', ''a'', ''f'', ''c''] [])
     = map follow_request [''a'', ''b'', ''c'', ''d'', ''e'', ''f'']
   \<and> snd (process_follows (recording third_fails) [''e'', ''b'', ''d'', ''a'', ''f'', ''c''] [])
     = snd (process_follows (recording third_fails) [''c'', ''f'', ''a'', ''b'', ''e'', ''d''] [])"
proof -
  have "sort [''e'', ''b'', ''d'', ''a'', ''f'', ''c''] = [''a'', ''b'', ''c'', ''d'', ''e'', ''f'']"
    by code_simp
  moreover have "distinct [''e'', ''b'', ''d'', ''a'', ''f'', ''c'']
      \<and> distinct [''c'', ''f'', ''a'', ''b'', ''e'', ''d'']
      \<and> set [''e'', ''b'', ''d'', ''a'', ''f'', ''c''] = set [''c'', ''f'', ''a'', ''b'', ''e'', ''d'']"
    by auto
  ultimately show ?thesis
    using mutation_calls_sorted
      [of third_fails "[''e'', ''b'', ''d'', ''a'', ''f'', ''c'']"
          "[''e'', ''b'', ''d'', ''a'', ''f'', ''c'']" "[''c'', ''f'', ''a'', ''b'', ''e'', ''d'']"]
    by metis
qed

section \<open>Discovery never reaches the client\<close>

lemma call_with_pages_map:
  "call_get_followers_batch mk me [ArgUsernames batch] [(''pages_map'', v)] s
     = Some (Inl TypeError, s)"
  by (simp add: call_get_followers_batch_def bind_arguments_def get_followers_batch_params_def)

lemma fetch_batch_caught:
  "fetch_batch mk cfg rnd excluded count deeper batch st s = Some (st, s)"
  by (simp add: fetch_batch_def Let_def call_with_pages_map)

lemma process_batches_nothing:
  "\<exists>visited'. process_batches mk cfg rnd excluded count deeper queue i promoted visited
                 next_level s
               = Some ((promoted, visited', next_level), s)"
proof (induction "length queue - i" arbitrary: i visited rule: less_induct)
  case less
  show ?case
  proof (cases "i < length queue")
    case True
    then have "length queue - (i + batch_size) < length queue - i"
      by (simp add: batch_size_def)
    note IH = less.hyps [OF this]
    show ?thesis
      using IH [of visited]
        IH [of "visited \<union> set (filter (\<lambda>u. u \<notin> visited) (take batch_size (drop i queue)))"]
      by (subst process_batches.simps)
         (auto simp add: True Let_def fetch_batch_caught)
  next
    case False
    then show ?thesis by (subst process_batches.simps) simp
  qed
qed

lemma promote_levels_nothing:
  "promote_levels mk cfg rnd excluded count max_depth queue promoted visited current_depth s
     = Some (promoted, s)"
proof (cases "queue \<noteq> [] \<and> int (length promoted) < count \<and> current_depth < max_depth")
  case True
  obtain visited' where
    "process_batches mk cfg rnd excluded count (current_depth + 1 < max_depth) queue 0
       promoted visited [] s = Some ((promoted, visited', []), s)"
    using process_batches_nothing
      [of mk cfg rnd excluded count "current_depth + 1 < max_depth" queue 0 promoted visited
          "[]" s]
    by blast
  then show ?thesis
    using True
    by (subst promote_levels.simps) (simp add: promote_levels.simps [of _ _ _ _ _ _ "[]"])
next
  case False
  then show ?thesis by (subst promote_levels.simps) auto
qed

lemma find_users_to_promote_nothing:
  "find_users_to_promote mk cfg rnd current_followers ban_list count max_depth s = Some ([], s)"
  by (simp add: find_users_to_promote_def Let_def promote_levels_nothing py_take_def)

text \<open>
  C2 (the code fails the claim). The claim says that the followers a seed's fetch
  returns become candidates. \<open>find_users_to_promote\<close> calls
  \<open>get_followers_batch(batch, pages_map=pages_map)\<close>, and the signature of
  \<open>get_followers_batch\<close> has no parameter \<open>pages_map\<close>: the call raises \<open>TypeError\<close>
  before any request is made, the \<open>except Exception\<close> of the batch swallows it, and the
  search returns no candidate for any input (\<open>find_users_to_promote_nothing\<close>). At the
  input below the seed alice has the follower bob: the batched fetch, called as its
  signature asks, returns him, the collecting loop would make him a candidate, and the
  search returns the empty list without having sent a request.
\<close>

theorem seed_followers_never_collected:
  "get_followers_batch (make_request (page_server (\<lambda>p. [''bob'']))) ''me'' [''alice''] 1 client0
     = Some ([(''alice'', [''bob''])], client0\<lparr>sent := [followers_request ''alice'' 1]\<rparr>)
   \<and> collect_dict {''alice'', ''me''} 1 False [(''alice'', [''bob''])] ([], []) = ([''bob''], [])
   \<and> find_users_to_promote (make_request (page_server (\<lambda>p. [''bob''])))
        alice_config fixed_random [''alice''] {} 1 1 client0
     = Some ([], client0)"
proof -
  have nolimit: "\<not> page_limit_reached (Some 1) 1"
    by (simp add: page_limit_reached_def)
  have "get_followers_loop (make_request (page_server (\<lambda>p. [''bob'']))) ''alice'' (Some 1) 1 []
          client0
        = Some (Inr ([] @ items (Some (JList [''bob'']))),
                client0\<lparr>sent := sent client0 @ [followers_request ''alice'' 1]\<rparr>)"
    by (rule get_followers_loop_short
          [where mk = "make_request (page_server (\<lambda>p. [''bob'']))"
             and data = "Some (JList [''bob''])" and s = client0,
           OF nolimit make_request_page_server])
       (simp add: PER_PAGE_def)
  then have "get_followers_batch (make_request (page_server (\<lambda>p. [''bob'']))) ''me'' [''alice''] 1
       client0
     = Some ([(''alice'', [''bob''])], client0\<lparr>sent := [followers_request ''alice'' 1]\<rparr>)"
    by (simp add: get_followers_batch_def get_followers_def client0_def)
  moreover have "collect_dict {''alice'', ''me''} 1 False [(''alice'', [''bob''])] ([], [])
      = ([''bob''], [])"
    by simp
  ultimately show ?thesis
    by (simp add: find_users_to_promote_nothing)
qed

end
